theory Spec2Isabelle
  imports Main "HOL-Library.Sublist" "HOL-Library.Multiset" "HOL-Library.Word"
begin

section \<open>JavaScript values\<close>

text \<open>
  The values that flow through the chain: the primitives, and six kinds of
  objects. Every object carries the address that is its identity; \<open>===\<close> on
  objects compares addresses only.
  \<^item> \<open>Obj\<close>: a plain object (an object literal, a key-value mapping), its own
    properties in \<open>Object.keys\<close> order;
  \<^item> \<open>Inst\<close>: an object of any other class (a \<open>Date\<close>, an instance of a
    user's class), with its own properties;
  \<^item> \<open>Arr\<close>: an array;
  \<^item> \<open>EnumArr\<close>: an array that implements \<open>IEnumerable\<close> as well (an instance
    of a subclass of \<open>Array\<close> that carries the marker property and has
    \<open>getEnumerator()\<close>);
  \<^item> \<open>Enum\<close>: a collection of the surrounding library that implements
    \<open>IEnumerable\<close> (it carries the marker property and \<open>getEnumerator()\<close>
    enumerates the listed elements);
  \<^item> \<open>Link\<close>: a chain link (an instance of \<open>Abstract\<close>) of one of the three
    source adapter classes, with the source it wraps.
  Numbers are the integers from \<open>-2\<^sup>5\<^sup>3\<close> to \<open>2\<^sup>5\<^sup>3 - 1\<close>, the values of a word of
  54 bits read as signed (\<open>sint\<close>): each of them is a number of the language,
  two of them are \<open>===\<close> only if they are the same integer, and \<open>String\<close>
  prints each in plain decimal digits. Greater numbers, fractional numbers,
  symbols, properties that hold functions, and objects without
  \<open>Object.prototype\<close> in their prototype chain are outside the model.
\<close>

datatype link_class = Enumerable | Arraywise | Objectwise

datatype jsval =
    Undefined
  | Null
  | Bool bool
  | Num "54 word"
  | Str string
  | Obj nat "(string \<times> jsval) list"
  | Inst nat "(string \<times> jsval) list"
  | Arr nat "jsval list"
  | EnumArr nat "jsval list"
  | Enum nat "jsval list"
  | Link nat link_class jsval

text \<open>The address of an object; a primitive has none.\<close>

fun ref_addr :: "jsval \<Rightarrow> nat option" where
  "ref_addr (Obj a fs) = Some a"
| "ref_addr (Inst a fs) = Some a"
| "ref_addr (Arr a xs) = Some a"
| "ref_addr (EnumArr a xs) = Some a"
| "ref_addr (Enum a xs) = Some a"
| "ref_addr (Link a c s) = Some a"
| "ref_addr v = None"

text \<open>\<open>v instanceof Object\<close>: every object of the model, no primitive.\<close>

definition instanceof_Object :: "jsval \<Rightarrow> bool" where
  "instanceof_Object v = (ref_addr v \<noteq> None)"

fun instanceof_Array :: "jsval \<Rightarrow> bool" where
  "instanceof_Array (Arr a xs) = True"
| "instanceof_Array (EnumArr a xs) = True"
| "instanceof_Array v = False"

fun instanceof_Abstract :: "jsval \<Rightarrow> bool" where
  "instanceof_Abstract (Link a c s) = True"
| "instanceof_Abstract v = False"

text \<open>\<open>a === b\<close>.\<close>

definition strict_eq :: "jsval \<Rightarrow> jsval \<Rightarrow> bool" where
  "strict_eq a b =
     (case (ref_addr a, ref_addr b) of
        (Some x, Some y) \<Rightarrow> x = y
      | (None, None) \<Rightarrow> a = b
      | _ \<Rightarrow> False)"

text \<open>The truthiness of a value in a condition.\<close>

fun truthy :: "jsval \<Rightarrow> bool" where
  "truthy Undefined = False"
| "truthy Null = False"
| "truthy (Bool b) = b"
| "truthy (Num n) = (n \<noteq> 0)"
| "truthy (Str s) = (s \<noteq> [])"
| "truthy v = True"

text \<open>
  The decimal digits of an integer, with its sign. This is what \<open>String(n)\<close>
  prints for an integer \<open>n\<close> below \<open>10\<^sup>2\<^sup>1\<close> in absolute value: for every number
  of the model, and for every position in an array (an array has fewer than
  \<open>2\<^sup>3\<^sup>2\<close> elements).
\<close>

fun digits :: "nat \<Rightarrow> string" where
  "digits n = (if n < 10 then [''0123456789'' ! n]
               else digits (n div 10) @ [''0123456789'' ! (n mod 10)])"

declare digits.simps [simp del]

definition show_int :: "int \<Rightarrow> string" where
  "show_int i = (if i < 0 then CHR ''-'' # digits (nat (- i)) else digits (nat i))"

text \<open>\<open>Array.prototype.join\<close> with a comma, on strings already converted.\<close>

fun join_comma :: "string list \<Rightarrow> string" where
  "join_comma [] = []"
| "join_comma [s] = s"
| "join_comma (s # t # ss) = s @ CHR '','' # join_comma (t # ss)"

text \<open>
  \<open>String(v)\<close>, which is also the property key a value is converted to
  (\<open>obj[v]\<close>, \<open>v in obj\<close>) and what a template literal prints. The code
  converts primitives only; for an object the text is that of
  \<open>Object.prototype.toString\<close>, for an array that of \<open>join\<close>.
\<close>

fun ToString :: "jsval \<Rightarrow> string" where
  "ToString Undefined = ''undefined''"
| "ToString Null = ''null''"
| "ToString (Bool b) = (if b then ''true'' else ''false'')"
| "ToString (Num n) = show_int (sint n)"
| "ToString (Str s) = s"
| "ToString (Arr a xs) =
     join_comma (map (\<lambda>x. if x = Undefined \<or> x = Null then [] else ToString x) xs)"
| "ToString (EnumArr a xs) =
     join_comma (map (\<lambda>x. if x = Undefined \<or> x = Null then [] else ToString x) xs)"
| "ToString v = ''[object Object]''"

text \<open>The value of the property \<open>'[Types/_collection/IEnumerable]'\<close> of a value.\<close>

definition IEnumerable_marker :: string where
  "IEnumerable_marker = ''[Types/_collection/IEnumerable]''"

fun get_IEnumerable :: "jsval \<Rightarrow> jsval" where
  "get_IEnumerable (Obj a fs) =
     (case map_of fs IEnumerable_marker of Some v \<Rightarrow> v | None \<Rightarrow> Undefined)"
| "get_IEnumerable (Inst a fs) =
     (case map_of fs IEnumerable_marker of Some v \<Rightarrow> v | None \<Rightarrow> Undefined)"
| "get_IEnumerable (EnumArr a xs) = Bool True"
| "get_IEnumerable (Enum a xs) = Bool True"
| "get_IEnumerable (Link a c s) = Bool True"
| "get_IEnumerable v = Undefined"

text \<open>\<open>xs.indexOf(v)\<close>: the first position holding a value \<open>===\<close> to \<open>v\<close>, or -1.\<close>

fun indexOf_from :: "int \<Rightarrow> jsval list \<Rightarrow> jsval \<Rightarrow> int" where
  "indexOf_from i [] v = - 1"
| "indexOf_from i (x # xs) v = (if strict_eq x v then i else indexOf_from (i + 1) xs v)"

definition indexOf :: "jsval list \<Rightarrow> jsval \<Rightarrow> int" where
  "indexOf xs v = indexOf_from 0 xs v"

text \<open>
  The names every object literal inherits from \<open>Object.prototype\<close>: the \<open>in\<close>
  operator finds them in \<open>{}\<close> as well.
\<close>

definition Object_prototype_keys :: "string list" where
  "Object_prototype_keys =
     [''constructor'', ''hasOwnProperty'', ''isPrototypeOf'', ''propertyIsEnumerable'',
      ''toLocaleString'', ''toString'', ''valueOf'', ''__proto__'',
      ''__defineGetter__'', ''__defineSetter__'', ''__lookupGetter__'', ''__lookupSetter__'']"

text \<open>\<open>key in hash\<close> for a hash that started as \<open>{}\<close>, given its own properties.\<close>

definition in_hash :: "jsval \<Rightarrow> (string \<rightharpoonup> jsval) \<Rightarrow> bool" where
  "in_hash key hash = (hash (ToString key) \<noteq> None \<or> ToString key \<in> set Object_prototype_keys)"

text \<open>
  \<open>hash[key] = true\<close>. Assigning a primitive to \<open>__proto__\<close> goes to the
  inherited setter, which ignores it.
\<close>

definition hash_set_true :: "jsval \<Rightarrow> (string \<rightharpoonup> jsval) \<Rightarrow> (string \<rightharpoonup> jsval)" where
  "hash_set_true key hash =
     (if ToString key = ''__proto__'' then hash else hash(ToString key \<mapsto> Bool True))"

text \<open>
  What the code throws: a \<open>TypeError\<close> or an \<open>Error\<close>, with its message.
\<close>

datatype error = TypeError string | Error string

section \<open>Cursors and chain links\<close>

text \<open>
  Modelled from the spec: the class \<open>Abstract\<close> and the cursors of the source
  adapters are not among the sources. A chain link is what each of its cursors
  enumerates, a finite sequence of (index, element) pairs, with its
  \<open>shouldSaveIndices\<close> attribute. A cursor is the iteration state of the spec:
  the current pair (none before the first advance) and the pairs still to come;
  \<open>c_items\<close> keeps the whole sequence for \<open>reset()\<close>.
\<close>

record abstract_link =
  link_items :: "(jsval \<times> jsval) list"
  shouldSaveIndices :: bool

record cursor =
  c_items :: "(jsval \<times> jsval) list"
  c_current :: "(jsval \<times> jsval) option"
  c_rest :: "(jsval \<times> jsval) list"

definition new_cursor :: "(jsval \<times> jsval) list \<Rightarrow> cursor" where
  "new_cursor ps = \<lparr>c_items = ps, c_current = None, c_rest = ps\<rparr>"

definition cursor_moveNext :: "cursor \<Rightarrow> bool \<times> cursor" where
  "cursor_moveNext c =
     (case c_rest c of
        [] \<Rightarrow> (False, c)
      | p # ps \<Rightarrow> (True, c\<lparr>c_current := Some p, c_rest := ps\<rparr>))"

definition cursor_getCurrent :: "cursor \<Rightarrow> jsval" where
  "cursor_getCurrent c = (case c_current c of None \<Rightarrow> Undefined | Some p \<Rightarrow> snd p)"

definition cursor_getCurrentIndex :: "cursor \<Rightarrow> jsval" where
  "cursor_getCurrentIndex c = (case c_current c of None \<Rightarrow> Undefined | Some p \<Rightarrow> fst p)"

definition cursor_reset :: "cursor \<Rightarrow> cursor" where
  "cursor_reset c = c\<lparr>c_current := None, c_rest := c_items c\<rparr>"

text \<open>
  Cursors are objects: the store maps the address of each to its state, and
  \<open>getEnumerator()\<close> of a link creates a cursor at the next free address.
\<close>

record store =
  cells :: "nat \<Rightarrow> cursor"
  free :: nat

definition getEnumerator :: "abstract_link \<Rightarrow> store \<Rightarrow> nat \<times> store" where
  "getEnumerator l s =
     (free s, \<lparr>cells = (cells s)(free s := new_cursor (link_items l)), free = Suc (free s)\<rparr>)"

definition empty_store :: store where
  "empty_store = \<lparr>cells = (\<lambda>a. new_cursor []), free = 0\<rparr>"

text \<open>
  The positional view of an array: the elements under the indices 0, 1, ...
  (the positions of an array are numbers of the model).
\<close>

definition positional :: "jsval list \<Rightarrow> (jsval \<times> jsval) list" where
  "positional xs = zip (map (\<lambda>i. Num (of_nat i)) [0..<length xs]) xs"

definition link_of_array :: "jsval list \<Rightarrow> abstract_link" where
  "link_of_array xs = \<lparr>link_items = positional xs, shouldSaveIndices = False\<rparr>"

section \<open>UniquelyEnumerator\<close>

text \<open>
  The fields of the class. \<open>enumerator\<close> is the address of the upstream cursor
  in the store, \<open>objectsHash\<close> the array of the object keys met so far,
  \<open>keysHash\<close> the own properties of the object that remembers the primitive
  keys. An id-extractor is a function of the element and its index; \<open>None\<close>
  stands for the argument left out.
\<close>

type_synonym ExtractFunc = "jsval \<Rightarrow> jsval \<Rightarrow> jsval"

record uniquely_enumerator =
  u_previous :: abstract_link
  idExtractor :: "ExtractFunc option"
  enumerator :: nat
  objectsHash :: "jsval list"
  keysHash :: "string \<rightharpoonup> jsval"

text \<open>\<open>reset()\<close>: a new cursor of the previous link, and two empty stores.\<close>

definition uniquely_reset :: "uniquely_enumerator \<Rightarrow> store \<Rightarrow> uniquely_enumerator \<times> store" where
  "uniquely_reset u s =
     (let (e, s') = getEnumerator (u_previous u) s
      in (u\<lparr>enumerator := e, keysHash := Map.empty, objectsHash := []\<rparr>, s'))"

text \<open>
  The constructor stores its arguments and calls \<open>reset()\<close>, which assigns the
  three other fields; what they hold before is never read.
\<close>

definition UniquelyEnumerator :: "abstract_link \<Rightarrow> ExtractFunc option \<Rightarrow> store \<Rightarrow> uniquely_enumerator \<times> store" where
  "UniquelyEnumerator previous extractor s =
     uniquely_reset \<lparr>u_previous = previous, idExtractor = extractor, enumerator = 0,
                     objectsHash = [], keysHash = Map.empty\<rparr> s"

definition uniquely_getCurrent :: "uniquely_enumerator \<Rightarrow> store \<Rightarrow> jsval" where
  "uniquely_getCurrent u s = cursor_getCurrent (cells s (enumerator u))"

definition uniquely_getCurrentIndex :: "uniquely_enumerator \<Rightarrow> store \<Rightarrow> jsval" where
  "uniquely_getCurrentIndex u s = cursor_getCurrentIndex (cells s (enumerator u))"

text \<open>
  \<open>moveNext()\<close>: advance the upstream cursor; a key already in its store sends
  the call into itself, a new key is stored and the advance reported.
\<close>

function uniquely_moveNext :: "uniquely_enumerator \<Rightarrow> store \<Rightarrow> bool \<times> uniquely_enumerator \<times> store" where
  "uniquely_moveNext u s =
     (let (hasNext, c) = cursor_moveNext (cells s (enumerator u));
          s' = s\<lparr>cells := (cells s)(enumerator u := c)\<rparr>
      in if hasNext then
           (let current = (case idExtractor u of
                             None \<Rightarrow> cursor_getCurrent c
                           | Some f \<Rightarrow> f (cursor_getCurrent c) (cursor_getCurrentIndex c))
            in if instanceof_Object current then
                 (if indexOf (objectsHash u) current > - 1 then uniquely_moveNext u s'
                  else (hasNext, u\<lparr>objectsHash := objectsHash u @ [current]\<rparr>, s'))
               else
                 (if in_hash current (keysHash u) then uniquely_moveNext u s'
                  else (hasNext, u\<lparr>keysHash := hash_set_true current (keysHash u)\<rparr>, s')))
         else (hasNext, u, s'))"
  by pat_completeness auto
termination
  by (relation "measure (\<lambda>(u, s). length (c_rest (cells s (enumerator u))))")
     (auto simp: cursor_moveNext_def split: list.splits)

declare uniquely_moveNext.simps [simp del]


text \<open>
  For the proofs: the key \<open>moveNext\<close> computes for an upstream pair, and the
  pairs a cursor yields from given stores over the pairs its upstream has left.
\<close>

definition uniquely_key :: "ExtractFunc option \<Rightarrow> jsval \<times> jsval \<Rightarrow> jsval" where
  "uniquely_key f p = (case f of None \<Rightarrow> snd p | Some g \<Rightarrow> g (snd p) (fst p))"

fun uniq_list :: "ExtractFunc option \<Rightarrow> jsval list \<Rightarrow> (string \<rightharpoonup> jsval) \<Rightarrow> (jsval \<times> jsval) list \<Rightarrow> (jsval \<times> jsval) list" where
  "uniq_list f ohs m [] = []"
| "uniq_list f ohs m (p # ps) =
     (if instanceof_Object (uniquely_key f p) then
        (if indexOf ohs (uniquely_key f p) > - 1 then uniq_list f ohs m ps
         else p # uniq_list f (ohs @ [uniquely_key f p]) m ps)
      else
        (if in_hash (uniquely_key f p) m then uniq_list f ohs m ps
         else p # uniq_list f ohs (hash_set_true (uniquely_key f p) m) ps))"

text \<open>What one call of \<open>moveNext\<close> does, in terms of \<open>uniq_list\<close>.\<close>

definition uniquely_sim ::
  "uniquely_enumerator \<Rightarrow> store \<Rightarrow> bool \<Rightarrow> uniquely_enumerator \<Rightarrow> store \<Rightarrow> bool" where
  "uniquely_sim u s b u' s' =
    (enumerator u' = enumerator u \<and> idExtractor u' = idExtractor u \<and> u_previous u' = u_previous u \<and>
     free s' = free s \<and> (\<forall>a. a \<noteq> enumerator u \<longrightarrow> cells s' a = cells s a) \<and>
     (if b then
        (\<exists>p. c_current (cells s' (enumerator u)) = Some p \<and>
          uniq_list (idExtractor u) (objectsHash u) (keysHash u) (c_rest (cells s (enumerator u)))
            = p # uniq_list (idExtractor u) (objectsHash u') (keysHash u') (c_rest (cells s' (enumerator u)))) \<and>
        length (c_rest (cells s' (enumerator u))) < length (c_rest (cells s (enumerator u)))
      else uniq_list (idExtractor u) (objectsHash u) (keysHash u) (c_rest (cells s (enumerator u))) = []))"

lemma uniquely_moveNext_sim:
  "uniquely_moveNext u s = (b, u', s') \<Longrightarrow> uniquely_sim u s b u' s'"
proof (induction u s arbitrary: b u' s' rule: uniquely_moveNext.induct)
  case (1 u s)
  show ?case
  proof (cases "c_rest (cells s (enumerator u))")
    case Nil
    with "1.prems" show ?thesis
      by (subst (asm) uniquely_moveNext.simps) (auto simp: cursor_moveNext_def uniquely_sim_def)
  next
    case (Cons p ps)
    let ?c = "(cells s (enumerator u))\<lparr>c_current := Some p, c_rest := ps\<rparr>"
    let ?s = "s\<lparr>cells := (cells s)(enumerator u := ?c)\<rparr>"
    have mv: "cursor_moveNext (cells s (enumerator u)) = (True, ?c)"
      using Cons by (simp add: cursor_moveNext_def)
    have key: "(case idExtractor u of None \<Rightarrow> cursor_getCurrent ?c
                | Some f \<Rightarrow> f (cursor_getCurrent ?c) (cursor_getCurrentIndex ?c))
               = uniquely_key (idExtractor u) p"
      by (simp add: uniquely_key_def cursor_getCurrent_def cursor_getCurrentIndex_def
          split: option.splits)
    let ?k = "uniquely_key (idExtractor u) p"
    consider (oseen) "instanceof_Object ?k" "indexOf (objectsHash u) ?k > - 1"
      | (onew) "instanceof_Object ?k" "\<not> indexOf (objectsHash u) ?k > - 1"
      | (pseen) "\<not> instanceof_Object ?k" "in_hash ?k (keysHash u)"
      | (pnew) "\<not> instanceof_Object ?k" "\<not> in_hash ?k (keysHash u)"
      by blast
    then show ?thesis
    proof cases
      case oseen
      have rec: "uniquely_moveNext u ?s = (b, u', s')"
        using "1.prems" oseen mv key by (subst (asm) uniquely_moveNext.simps) (simp add: Let_def)
      have "uniquely_sim u ?s b u' s'"
        by (rule "1.IH"(1)[OF mv[symmetric] refl refl _ refl _ _ rec]) (simp_all add: key oseen)
      then show ?thesis using Cons oseen
        by (auto simp: uniquely_sim_def split: if_splits)
    next
      case onew
      have "(b, u', s') = (True, u\<lparr>objectsHash := objectsHash u @ [?k]\<rparr>, ?s)"
        using "1.prems" onew mv key by (subst (asm) uniquely_moveNext.simps) (simp add: Let_def)
      then show ?thesis using Cons onew by (simp add: uniquely_sim_def)
    next
      case pseen
      have rec: "uniquely_moveNext u ?s = (b, u', s')"
        using "1.prems" pseen mv key by (subst (asm) uniquely_moveNext.simps) (simp add: Let_def)
      have "uniquely_sim u ?s b u' s'"
        by (rule "1.IH"(2)[OF mv[symmetric] refl refl _ refl _ _ rec]) (simp_all add: key pseen)
      then show ?thesis using Cons pseen
        by (auto simp: uniquely_sim_def split: if_splits)
    next
      case pnew
      have "(b, u', s') = (True, u\<lparr>keysHash := hash_set_true ?k (keysHash u)\<rparr>, ?s)"
        using "1.prems" pnew mv key by (subst (asm) uniquely_moveNext.simps) (simp add: Let_def)
      then show ?thesis using Cons pnew by (simp add: uniquely_sim_def)
    qed
  qed
qed

text \<open>
  Driving a cursor to its end, as \<open>value()\<close> does: the index and the element
  shown after each successful advance.
\<close>

function uniquely_collect :: "uniquely_enumerator \<Rightarrow> store \<Rightarrow> (jsval \<times> jsval) list" where
  "uniquely_collect u s =
     (case uniquely_moveNext u s of
        (hasNext, u', s') \<Rightarrow>
          if hasNext
          then (uniquely_getCurrentIndex u' s', uniquely_getCurrent u' s') # uniquely_collect u' s'
          else [])"
  by pat_completeness auto
termination
proof (relation "measure (\<lambda>(u, s). length (c_rest (cells s (enumerator u))))")
  show "wf (measure (\<lambda>(u, s). length (c_rest (cells s (enumerator u)))))" by simp
next
  fix u s hasNext y u' s'
  assume "(hasNext, y) = uniquely_moveNext u s" "(u', s') = y" "hasNext"
  then have "uniquely_sim u s True u' s'"
    using uniquely_moveNext_sim[of u s True u' s'] by simp
  then show "((u', s'), (u, s)) \<in> measure (\<lambda>(u, s). length (c_rest (cells s (enumerator u))))"
    by (simp add: uniquely_sim_def)
qed

declare uniquely_collect.simps [simp del]

lemma uniquely_collect_uniq_list:
  "uniquely_collect u s =
     uniq_list (idExtractor u) (objectsHash u) (keysHash u) (c_rest (cells s (enumerator u)))"
proof (induction u s rule: uniquely_collect.induct)
  case (1 u s)
  obtain b u' s' where mv: "uniquely_moveNext u s = (b, u', s')"
    by (metis prod_cases3)
  note sim = uniquely_moveNext_sim[OF mv]
  show ?case
  proof (cases b)
    case False
    then show ?thesis using mv sim
      by (subst uniquely_collect.simps) (simp add: uniquely_sim_def)
  next
    case True
    have ih: "uniquely_collect u' s' =
       uniq_list (idExtractor u') (objectsHash u') (keysHash u') (c_rest (cells s' (enumerator u')))"
      by (rule "1.IH"[OF mv[symmetric] refl]) (simp add: True)
    show ?thesis using mv sim True ih
      by (subst uniquely_collect.simps)
         (auto simp: uniquely_sim_def uniquely_getCurrent_def uniquely_getCurrentIndex_def
             cursor_getCurrent_def cursor_getCurrentIndex_def)
  qed
qed

text \<open>
  A whole traversal of a new cursor of the link \<open>previous.uniq(extractor)\<close>:
  the (index, element) pairs the cursor shows after each successful advance.
\<close>

definition uniquely_traverse :: "abstract_link \<Rightarrow> ExtractFunc option \<Rightarrow> (jsval \<times> jsval) list" where
  "uniquely_traverse previous extractor =
     (let (u, s) = UniquelyEnumerator previous extractor empty_store in uniquely_collect u s)"

text \<open>
  The identity under which the two stores remember a key: the address of an
  object, the property key of a primitive.
\<close>

definition dedup_key :: "jsval \<Rightarrow> nat + string" where
  "dedup_key v = (case ref_addr v of Some a \<Rightarrow> Inl a | None \<Rightarrow> Inr (ToString v))"

text \<open>
  The specification of deduplication: the elements at the positions whose key
  does not occur at an earlier position, in their order.
\<close>

definition first_occurrences :: "('a \<Rightarrow> 'k) \<Rightarrow> 'a list \<Rightarrow> 'a list" where
  "first_occurrences k xs =
     map (nth xs) (filter (\<lambda>i. k (xs ! i) \<notin> set (map k (take i xs))) [0..<length xs])"

lemma indexOf_from_found:
  "0 \<le> i \<Longrightarrow> (indexOf_from i xs v > - 1) = (\<exists>x\<in>set xs. strict_eq x v)"
  by (induction xs arbitrary: i) auto

lemma indexOf_found: "(indexOf xs v > - 1) = (\<exists>x\<in>set xs. strict_eq x v)"
  by (simp add: indexOf_def indexOf_from_found)

lemma uniquely_traverse_uniq_list:
  "uniquely_traverse previous f = uniq_list f [] Map.empty (link_items previous)"
  by (simp add: uniquely_traverse_def UniquelyEnumerator_def uniquely_reset_def getEnumerator_def
      uniquely_collect_uniq_list new_cursor_def empty_store_def)

lemma subseq_uniq_list: "subseq (uniq_list f ohs m ps) ps"
  by (induction ps arbitrary: ohs m) auto

lemma first_from_Cons:
  "map (nth (x # xs)) (filter (\<lambda>i. k ((x # xs) ! i) \<notin> S \<union> set (map k (take i (x # xs)))) [0..<length (x # xs)])
   = (if k x \<in> S then map (nth xs) (filter (\<lambda>i. k (xs ! i) \<notin> S \<union> set (map k (take i xs))) [0..<length xs])
      else x # map (nth xs) (filter (\<lambda>i. k (xs ! i) \<notin> insert (k x) S \<union> set (map k (take i xs))) [0..<length xs]))"
proof -
  have upt: "[0..<length (x # xs)] = 0 # map Suc [0..<length xs]"
    by (simp add: upt_conv_Cons map_Suc_upt del: upt_Suc)
  show ?thesis
    unfolding upt
    by (auto simp: filter_map comp_def intro!: arg_cong[where f="map ((!) xs)"] filter_cong)
qed

text \<open>The test of \<open>moveNext\<close> on a key, and the store update when the test fails.\<close>

definition seen_before :: "jsval list \<Rightarrow> (string \<rightharpoonup> jsval) \<Rightarrow> jsval \<Rightarrow> bool" where
  "seen_before ohs m x = (if instanceof_Object x then indexOf ohs x > - 1 else in_hash x m)"

definition remember :: "jsval \<Rightarrow> jsval list \<times> (string \<rightharpoonup> jsval) \<Rightarrow> jsval list \<times> (string \<rightharpoonup> jsval)" where
  "remember x hs = (if instanceof_Object x then (fst hs @ [x], snd hs) else (fst hs, hash_set_true x (snd hs)))"

lemma uniq_list_Cons:
  "uniq_list f ohs m (p # ps) =
     (if seen_before ohs m (uniquely_key f p) then uniq_list f ohs m ps
      else p # uniq_list f (fst (remember (uniquely_key f p) (ohs, m)))
                 (snd (remember (uniquely_key f p) (ohs, m))) ps)"
  by (simp add: seen_before_def remember_def)

lemma seen_after_object:
  assumes "instanceof_Object x"
  shows "seen_before (ohs @ [x]) m y = (seen_before ohs m y \<or> dedup_key y = dedup_key x)"
proof -
  obtain a where a: "ref_addr x = Some a"
    using assms by (auto simp: instanceof_Object_def)
  show ?thesis
  proof (cases "ref_addr y")
    case None
    then show ?thesis by (simp add: seen_before_def instanceof_Object_def dedup_key_def a)
  next
    case (Some b)
    then show ?thesis
      by (auto simp: seen_before_def instanceof_Object_def dedup_key_def a indexOf_found strict_eq_def)
  qed
qed

lemma seen_after_primitive:
  assumes "\<not> instanceof_Object x" "\<not> in_hash x m"
  shows "seen_before ohs (hash_set_true x m) y = (seen_before ohs m y \<or> dedup_key y = dedup_key x)"
proof -
  have x: "ref_addr x = None"
    using assms(1) by (simp add: instanceof_Object_def)
  have np: "ToString x \<noteq> ''__proto__''"
    using assms(2) by (auto simp: in_hash_def Object_prototype_keys_def)
  show ?thesis
  proof (cases "ref_addr y")
    case None
    then show ?thesis
      using np by (auto simp: seen_before_def instanceof_Object_def dedup_key_def x in_hash_def hash_set_true_def)
  next
    case (Some b)
    then show ?thesis by (simp add: seen_before_def instanceof_Object_def dedup_key_def x)
  qed
qed

lemma seen_after_remember:
  assumes "\<not> seen_before ohs m x"
  shows "seen_before (fst (remember x (ohs, m))) (snd (remember x (ohs, m))) y =
           (seen_before ohs m y \<or> dedup_key y = dedup_key x)"
proof (cases "instanceof_Object x")
  case True
  then show ?thesis by (simp add: remember_def seen_after_object)
next
  case False
  then have "\<not> in_hash x m" using assms by (simp add: seen_before_def)
  with False show ?thesis by (simp add: remember_def seen_after_primitive)
qed

lemma uniq_list_first:
  "(\<And>x. x \<in> set xs \<Longrightarrow> seen_before ohs m x = (dedup_key x \<in> S)) \<Longrightarrow> map snd ps = xs \<Longrightarrow>
   map snd (uniq_list None ohs m ps) =
     map (nth xs) (filter (\<lambda>i. dedup_key (xs ! i) \<notin> S \<union> set (map dedup_key (take i xs))) [0..<length xs])"
proof (induction ps arbitrary: ohs m S xs)
  case Nil
  then show ?case by auto
next
  case (Cons p ps)
  obtain x ys where xs: "xs = x # ys" "snd p = x" "map snd ps = ys"
    using Cons.prems(2) by auto
  have key: "uniquely_key None p = x" by (simp add: uniquely_key_def xs)
  have seen: "seen_before ohs m x = (dedup_key x \<in> S)"
    using Cons.prems(1)[of x] by (simp add: xs)
  show ?case
  proof (cases "dedup_key x \<in> S")
    case True
    have "map snd (uniq_list None ohs m (p # ps)) = map snd (uniq_list None ohs m ps)"
      using seen True by (simp only: uniq_list_Cons key if_True)
    also have "\<dots> = map (nth ys)
       (filter (\<lambda>i. dedup_key (ys ! i) \<notin> S \<union> set (map dedup_key (take i ys))) [0..<length ys])"
    proof (rule Cons.IH)
      show "map snd ps = ys" by (rule xs)
      show "seen_before ohs m y = (dedup_key y \<in> S)" if "y \<in> set ys" for y
        using Cons.prems(1)[of y] that by (simp add: xs)
    qed
    finally show ?thesis using True by (simp only: xs first_from_Cons if_True)
  next
    case False
    let ?ohs = "fst (remember x (ohs, m))"
    let ?m = "snd (remember x (ohs, m))"
    have new: "\<not> seen_before ohs m x" using seen False by simp
    have "map snd (uniq_list None ohs m (p # ps)) = x # map snd (uniq_list None ?ohs ?m ps)"
      using new by (simp only: uniq_list_Cons key if_False list.map xs)
    also have "map snd (uniq_list None ?ohs ?m ps) = map (nth ys)
       (filter (\<lambda>i. dedup_key (ys ! i) \<notin> insert (dedup_key x) S \<union> set (map dedup_key (take i ys)))
          [0..<length ys])"
    proof (rule Cons.IH)
      show "map snd ps = ys" by (rule xs)
      show "seen_before ?ohs ?m y = (dedup_key y \<in> insert (dedup_key x) S)" if "y \<in> set ys" for y
        using Cons.prems(1)[of y] that seen_after_remember[OF new, of y] by (simp add: xs) blast
    qed
    finally show ?thesis using False by (simp only: xs first_from_Cons if_False)
  qed
qed

text \<open>
  Claim C1, as amended. Without an id-extractor the traversal yields each element
  the first time its key occurs and skips the later occurrences, where the key of
  an object is its identity (two objects of equal contents both stay) and the key
  of a primitive is its property key \<open>String(v)\<close>: the value-store is an object
  used as a hash, so the number 1 and the string '1' are one key. The statement
  leaves out primitives whose property key is a name inherited from
  \<open>Object.prototype\<close>.
\<close>

theorem uniquely_first_occurrences:
  assumes "\<forall>x\<in>set (map snd (link_items previous)).
             \<not> instanceof_Object x \<longrightarrow> ToString x \<notin> set Object_prototype_keys"
  shows "map snd (uniquely_traverse previous None) =
           first_occurrences dedup_key (map snd (link_items previous))"
proof -
  have "seen_before [] Map.empty x = (dedup_key x \<in> {})"
    if "x \<in> set (map snd (link_items previous))" for x
    using assms that by (auto simp: seen_before_def indexOf_def in_hash_def)
  from uniq_list_first[OF this refl] show ?thesis
    by (simp add: uniquely_traverse_uniq_list first_occurrences_def)
qed

text \<open>
  An input that satisfies the hypothesis: 1 is dropped the second time, the two
  objects \<open>{x: 1}\<close> at the addresses 0 and 1 both stay, the object at the address
  0 is dropped the second time.
\<close>

theorem uniquely_first_occurrences_witness:
  "map snd (uniquely_traverse
      (link_of_array [Num 1, Num 1, Obj 0 [(''x'', Num 1)], Obj 1 [(''x'', Num 1)],
                      Obj 0 [(''x'', Num 1)], Str ''a'', Num 2]) None)
   = [Num 1, Obj 0 [(''x'', Num 1)], Obj 1 [(''x'', Num 1)], Str ''a'', Num 2]"
  using uniquely_first_occurrences
    [of "link_of_array [Num 1, Num 1, Obj 0 [(''x'', Num 1)], Obj 1 [(''x'', Num 1)],
                        Obj 0 [(''x'', Num 1)], Str ''a'', Num 2]"]
  by (simp add: link_of_array_def positional_def first_occurrences_def dedup_key_def
      instanceof_Object_def Object_prototype_keys_def show_int_def digits.simps)

text \<open>
  Claim C1 as stated fails on its own example: \<open>unique([1, 1, 2, '1'])\<close> yields
  \<open>[1, 2]\<close>, because \<open>'1' in keysHash\<close> finds the key the number 1 left.
\<close>

theorem uniquely_string_keys_counterexample:
  "map snd (uniquely_traverse (link_of_array [Num 1, Num 1, Num 2, Str ''1'']) None) = [Num 1, Num 2]
   \<and> map snd (uniquely_traverse (link_of_array [Num 1, Num 1, Num 2, Str ''1'']) None)
       \<noteq> [Num 1, Num 2, Str ''1'']"
  by (simp add: uniquely_traverse_uniq_list link_of_array_def positional_def uniquely_key_def
      instanceof_Object_def in_hash_def hash_set_true_def Object_prototype_keys_def
      show_int_def digits.simps)

text \<open>
  Claim C10. With or without an id-extractor, what the cursor shows after its
  successful advances are pairs of the upstream, index and element unchanged and
  in the upstream's order: the extractor's result is the key only.
\<close>

theorem uniquely_yields_upstream_pairs:
  "subseq (uniquely_traverse previous extractor) (link_items previous)"
  by (simp add: uniquely_traverse_uniq_list subseq_uniq_list)

text \<open>An extractor that maps every element to the key 7: the first element is yielded as it is.\<close>

theorem uniquely_yields_upstream_pairs_witness:
  "uniquely_traverse (link_of_array [Str ''a'', Str ''b'']) (Some (\<lambda>item index. Num 7))
     = [(Num 0, Str ''a'')]
   \<and> subseq [(Num 0, Str ''a'')] (link_items (link_of_array [Str ''a'', Str ''b'']))"
  using uniquely_yields_upstream_pairs
    [of "link_of_array [Str ''a'', Str ''b'']" "Some (\<lambda>item index. Num 7)"]
  by (simp add: uniquely_traverse_uniq_list link_of_array_def positional_def uniquely_key_def
      instanceof_Object_def in_hash_def hash_set_true_def Object_prototype_keys_def
      show_int_def digits.simps)

text \<open>
  Claim C3, as amended. \<open>reset()\<close> empties both stores and takes a new cursor
  from the previous link; the cursor it held is neither reset nor touched. The
  traversal that follows yields what a new Uniquely cursor yields.
\<close>

theorem uniquely_reset_new_cursor:
  assumes "enumerator u < free s" and "uniquely_reset u s = (u', s')"
  shows "objectsHash u' = [] \<and> keysHash u' = Map.empty
         \<and> enumerator u' \<noteq> enumerator u
         \<and> cells s' (enumerator u) = cells s (enumerator u)
         \<and> cells s' (enumerator u') = new_cursor (link_items (u_previous u))
         \<and> uniquely_collect u' s' = uniquely_traverse (u_previous u) (idExtractor u)"
  using assms
  by (auto simp: uniquely_reset_def getEnumerator_def uniquely_collect_uniq_list
      uniquely_traverse_uniq_list new_cursor_def)

text \<open>
  Claim C3 as stated fails: after one advance and \<open>reset()\<close>, the cursor in use
  is another object, and the cursor used before still stands on its first element.
\<close>

theorem uniquely_reset_counterexample:
  "let (u0, s0) = UniquelyEnumerator (link_of_array [Num 1, Num 2]) None empty_store;
       (b, u1, s1) = uniquely_moveNext u0 s0;
       (u2, s2) = uniquely_reset u1 s1
   in enumerator u2 \<noteq> enumerator u1
      \<and> cells s2 (enumerator u1) \<noteq> cursor_reset (cells s1 (enumerator u1))
      \<and> c_current (cells s2 (enumerator u1)) = Some (Num 0, Num 1)"
  by (simp add: UniquelyEnumerator_def uniquely_reset_def getEnumerator_def empty_store_def
      link_of_array_def positional_def new_cursor_def uniquely_moveNext.simps cursor_moveNext_def
      cursor_getCurrent_def cursor_getCurrentIndex_def cursor_reset_def
      instanceof_Object_def in_hash_def hash_set_true_def Object_prototype_keys_def
      show_int_def digits.simps Let_def)

text \<open>A cursor over \<open>[1, 1, 2]\<close>, advanced once and reset.\<close>

theorem uniquely_reset_new_cursor_witness:
  "let (u0, s0) = UniquelyEnumerator (link_of_array [Num 1, Num 1, Num 2]) None empty_store;
       (b, u1, s1) = uniquely_moveNext u0 s0;
       (u2, s2) = uniquely_reset u1 s1
   in enumerator u1 < free s1 \<and> objectsHash u2 = [] \<and> keysHash u2 = Map.empty
      \<and> enumerator u2 \<noteq> enumerator u1
      \<and> uniquely_collect u2 s2 = [(Num 0, Num 1), (Num 2, Num 2)]"
proof -
  obtain u0 s0 where c: "UniquelyEnumerator (link_of_array [Num 1, Num 1, Num 2]) None empty_store = (u0, s0)"
    by (cases "UniquelyEnumerator (link_of_array [Num 1, Num 1, Num 2]) None empty_store")
  obtain b u1 s1 where m: "uniquely_moveNext u0 s0 = (b, u1, s1)"
    by (cases "uniquely_moveNext u0 s0")
  obtain u2 s2 where r: "uniquely_reset u1 s1 = (u2, s2)"
    by (cases "uniquely_reset u1 s1")
  have u0: "enumerator u0 = 0 \<and> free s0 = 1 \<and> u_previous u0 = link_of_array [Num 1, Num 1, Num 2]
            \<and> idExtractor u0 = None"
    using c by (auto simp: UniquelyEnumerator_def uniquely_reset_def getEnumerator_def empty_store_def)
  have sim: "uniquely_sim u0 s0 b u1 s1" by (rule uniquely_moveNext_sim[OF m])
  then have lt: "enumerator u1 < free s1" and prev: "u_previous u1 = link_of_array [Num 1, Num 1, Num 2]"
    and ex: "idExtractor u1 = None"
    using u0 by (simp_all add: uniquely_sim_def)
  from uniquely_reset_new_cursor[OF lt r] show ?thesis
    using c m r lt
    by (simp add: prev ex uniquely_traverse_uniq_list link_of_array_def positional_def uniquely_key_def
      instanceof_Object_def in_hash_def hash_set_true_def Object_prototype_keys_def
      show_int_def digits.simps)
qed

section \<open>ZippedEnumerator\<close>

text \<open>
  Modelled from the spec: \<open>getEnumerator()\<close> of a value that has one. A
  collection enumerates its elements by position; a chain link enumerates its
  source as its adapter does (an array by position, an object by key, an
  enumerable through its own cursor). \<open>None\<close>: the value has no such method.
\<close>

fun enumerable_pairs :: "jsval \<Rightarrow> (jsval \<times> jsval) list option" where
  "enumerable_pairs (Enum a xs) = Some (positional xs)"
| "enumerable_pairs (EnumArr a xs) = Some (positional xs)"
| "enumerable_pairs (Link a Arraywise (Arr b xs)) = Some (positional xs)"
| "enumerable_pairs (Link a Objectwise (Obj b fs)) = Some (map (\<lambda>(k, v). (Str k, v)) fs)"
| "enumerable_pairs (Link a Objectwise (Inst b fs)) = Some (map (\<lambda>(k, v). (Str k, v)) fs)"
| "enumerable_pairs (Link a Enumerable s) = enumerable_pairs s"
| "enumerable_pairs v = None"

definition item_getEnumerator :: "jsval \<Rightarrow> cursor option" where
  "item_getEnumerator item = map_option new_cursor (enumerable_pairs item)"

text \<open>\<open>item[i]\<close> on an array: \<open>undefined\<close> outside its bounds.\<close>

fun array_get :: "jsval \<Rightarrow> int \<Rightarrow> jsval" where
  "array_get (Arr a xs) i = (if 0 \<le> i \<and> i < int (length xs) then xs ! nat i else Undefined)"
| "array_get (EnumArr a xs) i = (if 0 \<le> i \<and> i < int (length xs) then xs ! nat i else Undefined)"
| "array_get v i = Undefined"

text \<open>
  The fields of the class. The cursors of a Zipped cursor are kept by value:
  \<open>z_enumerator\<close> is \<open>None\<close> while the field is \<open>null\<close>, \<open>z_itemsEnumerators\<close>
  is the array of the cursors of the secondary collections, filled on demand,
  \<open>z_current\<close> the tuple built by the last advance (\<open>None\<close> for \<open>undefined\<close>;
  the tuple is a new array each time, of no identity here).
\<close>

record zipped_enumerator =
  z_previous :: abstract_link
  z_items :: "jsval list"
  z_current :: "jsval list option"
  z_index :: int
  z_enumerator :: "cursor option"
  z_itemsEnumerators :: "nat \<Rightarrow> cursor option"

definition zipped_reset :: "zipped_enumerator \<Rightarrow> zipped_enumerator" where
  "zipped_reset z =
     z\<lparr>z_enumerator := None, z_index := - 1, z_current := None, z_itemsEnumerators := (\<lambda>i. None)\<rparr>"

text \<open>The constructor stores its arguments and calls \<open>reset()\<close>; it looks at no item.\<close>

definition ZippedEnumerator :: "abstract_link \<Rightarrow> jsval list \<Rightarrow> zipped_enumerator" where
  "ZippedEnumerator previous items =
     zipped_reset \<lparr>z_previous = previous, z_items = items, z_current = None, z_index = 0,
                   z_enumerator = None, z_itemsEnumerators = (\<lambda>i. None)\<rparr>"

text \<open>The message of the \<open>TypeError\<close> for the item at the position \<open>i\<close>.\<close>

definition unsupported_zip_argument :: "nat \<Rightarrow> string" where
  "unsupported_zip_argument i =
     ''Collection at argument '' @ show_int (int i) @
     '' should implement Types/collection#IEnumerable''"

text \<open>
  The loop \<open>for (let i = 0; i < this.items.length; i++)\<close> of \<open>moveNext\<close>, from the
  position \<open>i\<close> on, with the tuple built so far. Calling \<open>getEnumerator\<close> on an
  item that carries the marker and has no such method is a \<open>TypeError\<close> of the
  language.
\<close>

fun zipped_items_loop ::
  "int \<Rightarrow> nat \<Rightarrow> jsval list \<Rightarrow> (nat \<Rightarrow> cursor option) \<Rightarrow> jsval list
     \<Rightarrow> error + (jsval list \<times> (nat \<Rightarrow> cursor option))" where
  "zipped_items_loop index i [] ies current = Inr (current, ies)"
| "zipped_items_loop index i (item # items) ies current =
     (if instanceof_Array item then
        zipped_items_loop index (Suc i) items ies (current @ [array_get item index])
      else if truthy item \<and> truthy (get_IEnumerable item) then
        (case (case ies i of Some e \<Rightarrow> Some e | None \<Rightarrow> item_getEnumerator item) of
           None \<Rightarrow> Inl (TypeError ''item.getEnumerator is not a function'')
         | Some e \<Rightarrow>
             (case cursor_moveNext e of
                (hasNext, e') \<Rightarrow>
                  zipped_items_loop index (Suc i) items (ies(i := Some e'))
                    (current @ [if hasNext then cursor_getCurrent e' else Undefined])))
      else Inl (TypeError (unsupported_zip_argument i)))"

text \<open>
  \<open>moveNext()\<close>: the primary cursor is created at the first call; the items are
  only looked at when it has an element.
\<close>

definition zipped_moveNext :: "zipped_enumerator \<Rightarrow> error + (bool \<times> zipped_enumerator)" where
  "zipped_moveNext z =
     (let e = (case z_enumerator z of Some e \<Rightarrow> e | None \<Rightarrow> new_cursor (link_items (z_previous z)));
          (hasNext, e') = cursor_moveNext e;
          z1 = z\<lparr>z_enumerator := Some e'\<rparr>
      in if hasNext then
           (let z2 = z1\<lparr>z_index := z_index z1 + 1\<rparr>
            in case zipped_items_loop (z_index z2) 0 (z_items z2) (z_itemsEnumerators z2)
                      [cursor_getCurrent e'] of
                 Inl err \<Rightarrow> Inl err
               | Inr (current, ies) \<Rightarrow>
                   Inr (hasNext, z2\<lparr>z_itemsEnumerators := ies, z_current := Some current\<rparr>))
         else Inr (hasNext, z1))"

definition zipped_getCurrent :: "zipped_enumerator \<Rightarrow> jsval list option" where
  "zipped_getCurrent z = z_current z"

definition zipped_getCurrentIndex :: "zipped_enumerator \<Rightarrow> int" where
  "zipped_getCurrentIndex z = z_index z"

text \<open>What the primary cursor has left, whether it is created yet or not.\<close>

definition primary_rest :: "zipped_enumerator \<Rightarrow> (jsval \<times> jsval) list" where
  "primary_rest z =
     (case z_enumerator z of Some e \<Rightarrow> c_rest e | None \<Rightarrow> link_items (z_previous z))"

lemma zipped_moveNext_progress:
  "zipped_moveNext z = Inr (True, z') \<Longrightarrow> length (primary_rest z') < length (primary_rest z)"
  by (auto simp: zipped_moveNext_def primary_rest_def cursor_moveNext_def new_cursor_def Let_def
      split: option.splits list.splits sum.splits prod.splits if_splits)

text \<open>Driving the cursor to its end: the tuples, or the error that stops it.\<close>

function zipped_collect :: "zipped_enumerator \<Rightarrow> error + jsval list option list" where
  "zipped_collect z =
     (case zipped_moveNext z of
        Inl err \<Rightarrow> Inl err
      | Inr (hasNext, z') \<Rightarrow>
          if hasNext then
            (case zipped_collect z' of
               Inl err \<Rightarrow> Inl err
             | Inr rest \<Rightarrow> Inr (zipped_getCurrent z' # rest))
          else Inr [])"
  by pat_completeness auto
termination
proof (relation "measure (\<lambda>z. length (primary_rest z))")
  show "wf (measure (\<lambda>z. length (primary_rest z)))" by simp
next
  fix z x hasNext z'
  assume "zipped_moveNext z = Inr x" "(hasNext, z') = x" "hasNext"
  then have "zipped_moveNext z = Inr (True, z')" by simp
  then show "(z', z) \<in> measure (\<lambda>z. length (primary_rest z))"
    by (simp add: zipped_moveNext_progress)
qed

declare zipped_collect.simps [simp del]

definition zipped_traverse :: "abstract_link \<Rightarrow> jsval list \<Rightarrow> error + jsval list option list" where
  "zipped_traverse previous items = zipped_collect (ZippedEnumerator previous items)"


text \<open>
  A secondary collection the loop accepts: an array, or a value whose
  \<open>getEnumerator()\<close> gives a cursor.
\<close>

definition zip_supported :: "jsval \<Rightarrow> bool" where
  "zip_supported sec = (instanceof_Array sec \<or> enumerable_pairs sec \<noteq> None)"

text \<open>The elements of a secondary collection, in order.\<close>

definition secondary_elements :: "jsval \<Rightarrow> jsval list" where
  "secondary_elements sec =
     (case sec of
        Arr a xs \<Rightarrow> xs
      | EnumArr a xs \<Rightarrow> xs
      | _ \<Rightarrow> (case enumerable_pairs sec of Some ps \<Rightarrow> map snd ps | None \<Rightarrow> []))"

definition nth_or_undefined :: "jsval list \<Rightarrow> nat \<Rightarrow> jsval" where
  "nth_or_undefined xs i = (if i < length xs then xs ! i else Undefined)"

text \<open>
  The specification of zip: one tuple for each element of the primary, the
  element first, then the element of each secondary at the same position, or
  \<open>undefined\<close> where the secondary is shorter.
\<close>

definition zipped_spec :: "abstract_link \<Rightarrow> jsval list \<Rightarrow> jsval list list" where
  "zipped_spec previous items =
     map (\<lambda>i. snd (link_items previous ! i) #
               map (\<lambda>sec. nth_or_undefined (secondary_elements sec) i) items)
         [0..<length (link_items previous)]"

text \<open>
  For the proofs: once \<open>idx\<close> tuples are built, the cursor of each enumerable
  secondary, created or not, has the elements from \<open>idx\<close> on left.
\<close>

definition rest_or :: "cursor option \<Rightarrow> jsval list \<Rightarrow> jsval list" where
  "rest_or c els = (case c of Some e \<Rightarrow> map snd (c_rest e) | None \<Rightarrow> els)"

definition sec_inv :: "nat \<Rightarrow> (nat \<Rightarrow> cursor option) \<Rightarrow> nat \<Rightarrow> jsval list \<Rightarrow> bool" where
  "sec_inv idx ies i its =
     (\<forall>j<length its. \<not> instanceof_Array (its ! j) \<longrightarrow>
        rest_or (ies (i + j)) (secondary_elements (its ! j)) = drop idx (secondary_elements (its ! j)))"

lemma sec_inv_Cons:
  "sec_inv idx ies i (item # its) =
     ((\<not> instanceof_Array item \<longrightarrow>
        rest_or (ies i) (secondary_elements item) = drop idx (secondary_elements item))
      \<and> sec_inv idx ies (Suc i) its)"
  by (auto simp: sec_inv_def less_Suc_eq_0_disj)

lemma sec_inv_cong: "(\<And>k. i \<le> k \<Longrightarrow> ies k = ies' k) \<Longrightarrow> sec_inv idx ies i its = sec_inv idx ies' i its"
  by (simp add: sec_inv_def)

lemma enumerable_pairs_marker:
  "enumerable_pairs v = Some ps \<Longrightarrow> truthy v \<and> truthy (get_IEnumerable v)"
  by (induction v arbitrary: ps rule: enumerable_pairs.induct) auto

lemma array_get_nth: "instanceof_Array item \<Longrightarrow>
  array_get item (int idx) = nth_or_undefined (secondary_elements item) idx"
  by (cases item) (auto simp: nth_or_undefined_def secondary_elements_def)

lemma cursor_step_drop:
  assumes "map snd (c_rest e) = drop idx els" and "cursor_moveNext e = (hasNext, e')"
  shows "(if hasNext then cursor_getCurrent e' else Undefined) = nth_or_undefined els idx
         \<and> map snd (c_rest e') = drop (Suc idx) els"
proof (cases "c_rest e")
  case Nil
  then have "length els \<le> idx" using assms(1) by simp
  then show ?thesis using assms Nil
    by (auto simp: cursor_moveNext_def nth_or_undefined_def)
next
  case (Cons p r)
  then have d: "drop idx els = snd p # map snd r" using assms(1) by simp
  then have lt: "idx < length els" by (cases "idx < length els") auto
  have "els ! idx = snd p" using d lt by (metis nth_via_drop)
  moreover have "drop (Suc idx) els = map snd r" using d by (metis drop_Suc tl_drop list.sel(3))
  ultimately show ?thesis using assms(2) Cons lt
    by (auto simp: cursor_moveNext_def nth_or_undefined_def cursor_getCurrent_def)
qed

lemma zipped_items_loop_supported:
  "\<forall>sec\<in>set its. zip_supported sec \<Longrightarrow> sec_inv idx ies i its \<Longrightarrow>
   \<exists>ies'. zipped_items_loop (int idx) i its ies cur
             = Inr (cur @ map (\<lambda>sec. nth_or_undefined (secondary_elements sec) idx) its, ies')
         \<and> sec_inv (Suc idx) ies' i its \<and> (\<forall>k<i. ies' k = ies k)"
proof (induction its arbitrary: i ies cur)
  case Nil
  then show ?case by (simp add: sec_inv_def)
next
  case (Cons item its)
  have sup: "\<forall>sec\<in>set its. zip_supported sec" using Cons.prems(1) by simp
  have inv_tl: "sec_inv idx ies (Suc i) its" using Cons.prems(2) by (simp add: sec_inv_Cons)
  show ?case
  proof (cases "instanceof_Array item")
    case True
    from Cons.IH[OF sup inv_tl, of "cur @ [array_get item (int idx)]"]
    obtain ies' where r: "zipped_items_loop (int idx) (Suc i) its ies (cur @ [array_get item (int idx)])
             = Inr ((cur @ [array_get item (int idx)]) @ map (\<lambda>sec. nth_or_undefined (secondary_elements sec) idx) its, ies')"
      and inv': "sec_inv (Suc idx) ies' (Suc i) its" and same: "\<forall>k<Suc i. ies' k = ies k"
      by blast
    show ?thesis
      using True r inv' same by (intro exI[of _ ies']) (simp add: sec_inv_Cons array_get_nth)
  next
    case False
    then obtain ps where ps: "enumerable_pairs item = Some ps"
      using Cons.prems(1) by (auto simp: zip_supported_def)
    note mk = enumerable_pairs_marker[OF ps]
    define e where "e = (case ies i of Some e \<Rightarrow> e | None \<Rightarrow> new_cursor ps)"
    have e_opt: "(case ies i of Some e \<Rightarrow> Some e | None \<Rightarrow> item_getEnumerator item) = Some e"
      by (simp add: e_def item_getEnumerator_def ps split: option.splits)
    have els: "secondary_elements item = map snd ps"
      using False ps by (cases item) (simp_all add: secondary_elements_def)
    have e_rest: "map snd (c_rest e) = drop idx (secondary_elements item)"
      using Cons.prems(2) False
      by (auto simp: sec_inv_Cons e_def els new_cursor_def rest_or_def split: option.splits)
    obtain hasNext e' where mv: "cursor_moveNext e = (hasNext, e')"
      by (cases "cursor_moveNext e")
    note st = cursor_step_drop[OF e_rest mv]
    let ?v = "if hasNext then cursor_getCurrent e' else Undefined"
    let ?ies = "ies(i := Some e')"
    have "sec_inv idx ?ies (Suc i) its"
      using inv_tl sec_inv_cong[of "Suc i" ?ies ies idx its] by simp
    from Cons.IH[OF sup this, of "cur @ [?v]"]
    obtain ies' where r: "zipped_items_loop (int idx) (Suc i) its ?ies (cur @ [?v])
             = Inr ((cur @ [?v]) @ map (\<lambda>sec. nth_or_undefined (secondary_elements sec) idx) its, ies')"
      and inv': "sec_inv (Suc idx) ies' (Suc i) its" and same: "\<forall>k<Suc i. ies' k = ?ies k"
      by blast
    have here: "ies' i = Some e'" using same by simp
    have before: "\<forall>k<i. ies' k = ies k" using same by simp
    have "zipped_items_loop (int idx) i (item # its) ies cur
            = Inr (cur @ map (\<lambda>sec. nth_or_undefined (secondary_elements sec) idx) (item # its), ies')"
      using False mk e_opt mv r st by simp
    moreover have "sec_inv (Suc idx) ies' i (item # its)"
      using inv' here st by (simp add: sec_inv_Cons rest_or_def)
    ultimately show ?thesis using before by blast
  qed
qed

definition zipped_tuple :: "zipped_enumerator \<Rightarrow> nat \<Rightarrow> jsval \<times> jsval \<Rightarrow> jsval list" where
  "zipped_tuple z idx p = snd p # map (\<lambda>sec. nth_or_undefined (secondary_elements sec) idx) (z_items z)"

lemma zipped_moveNext_supported:
  assumes "\<forall>sec\<in>set (z_items z). zip_supported sec"
    and "sec_inv idx (z_itemsEnumerators z) 0 (z_items z)"
    and "z_index z = int idx - 1"
    and "primary_rest z = p # ps"
  shows "\<exists>z'. zipped_moveNext z = Inr (True, z') \<and> primary_rest z' = ps
            \<and> z_items z' = z_items z \<and> z_index z' = int (Suc idx) - 1
            \<and> sec_inv (Suc idx) (z_itemsEnumerators z') 0 (z_items z')
            \<and> zipped_getCurrent z' = Some (zipped_tuple z idx p)"
proof -
  define e where "e = (case z_enumerator z of Some e \<Rightarrow> e | None \<Rightarrow> new_cursor (link_items (z_previous z)))"
  have rest: "c_rest e = p # ps"
    using assms(4) by (simp add: e_def primary_rest_def new_cursor_def split: option.splits)
  let ?e = "e\<lparr>c_current := Some p, c_rest := ps\<rparr>"
  have mv: "cursor_moveNext e = (True, ?e)" using rest by (simp add: cursor_moveNext_def)
  from zipped_items_loop_supported[OF assms(1,2), of "[snd p]"]
  obtain ies' where loop: "zipped_items_loop (int idx) 0 (z_items z) (z_itemsEnumerators z) [snd p]
        = Inr ([snd p] @ map (\<lambda>sec. nth_or_undefined (secondary_elements sec) idx) (z_items z), ies')"
    and inv: "sec_inv (Suc idx) ies' 0 (z_items z)"
    by blast
  have idx: "z_index z + 1 = int idx" using assms(3) by simp
  let ?z = "z\<lparr>z_enumerator := Some ?e, z_index := z_index z + 1, z_itemsEnumerators := ies',
              z_current := Some (zipped_tuple z idx p)\<rparr>"
  have "zipped_moveNext z = Inr (True, ?z)"
    using mv loop idx
    by (simp add: zipped_moveNext_def e_def[symmetric] Let_def cursor_getCurrent_def zipped_tuple_def)
  then show ?thesis using inv idx
    by (intro exI[of _ ?z]) (simp add: primary_rest_def zipped_getCurrent_def)
qed

lemma zipped_moveNext_exhausted:
  assumes "primary_rest z = []"
  shows "\<exists>z'. zipped_moveNext z = Inr (False, z')"
  using assms
  by (auto simp: zipped_moveNext_def primary_rest_def cursor_moveNext_def new_cursor_def Let_def
      split: option.splits)

lemma zipped_collect_supported:
  "\<forall>sec\<in>set (z_items z). zip_supported sec \<Longrightarrow>
   sec_inv idx (z_itemsEnumerators z) 0 (z_items z) \<Longrightarrow>
   z_index z = int idx - 1 \<Longrightarrow> primary_rest z = ps \<Longrightarrow>
   zipped_collect z =
     Inr (map (\<lambda>j. Some (snd (ps ! j) #
                 map (\<lambda>sec. nth_or_undefined (secondary_elements sec) (idx + j)) (z_items z)))
           [0..<length ps])"
proof (induction ps arbitrary: z idx)
  case Nil
  then obtain z' where "zipped_moveNext z = Inr (False, z')"
    using zipped_moveNext_exhausted by blast
  then show ?case by (subst zipped_collect.simps) simp
next
  case (Cons p ps)
  from zipped_moveNext_supported[OF Cons.prems]
  obtain z' where mv: "zipped_moveNext z = Inr (True, z')" and rest: "primary_rest z' = ps"
    and items: "z_items z' = z_items z" and index: "z_index z' = int (Suc idx) - 1"
    and inv: "sec_inv (Suc idx) (z_itemsEnumerators z') 0 (z_items z')"
    and cur: "zipped_getCurrent z' = Some (zipped_tuple z idx p)"
    by blast
  have sup: "\<forall>sec\<in>set (z_items z'). zip_supported sec" using Cons.prems(1) items by simp
  have ih: "zipped_collect z' =
     Inr (map (\<lambda>j. Some (snd (ps ! j) #
                 map (\<lambda>sec. nth_or_undefined (secondary_elements sec) (Suc idx + j)) (z_items z')))
           [0..<length ps])"
    by (rule Cons.IH[OF sup inv index rest])
  have upt: "[0..<length (p # ps)] = 0 # map Suc [0..<length ps]"
    by (simp add: upt_conv_Cons map_Suc_upt del: upt_Suc)
  show ?case
    unfolding upt
    by (subst zipped_collect.simps) (simp add: mv ih cur items zipped_tuple_def comp_def)
qed

text \<open>
  Claim C5. When every secondary is an array or an enumerable, the traversal
  raises nothing and yields exactly one tuple for each element of the primary:
  the i-th tuple is the i-th primary element followed by the i-th element of
  each secondary in argument order, \<open>undefined\<close> for a secondary with fewer than
  i+1 elements. So the zipped cursor ends when the primary ends, whatever the
  lengths of the secondaries.
\<close>

theorem zipped_tuples:
  assumes "\<forall>sec\<in>set items. zip_supported sec"
  shows "zipped_traverse previous items = Inr (map Some (zipped_spec previous items))"
proof -
  let ?z = "ZippedEnumerator previous items"
  have "zipped_collect ?z =
     Inr (map (\<lambda>j. Some (snd (link_items previous ! j) #
                 map (\<lambda>sec. nth_or_undefined (secondary_elements sec) (0 + j)) (z_items ?z)))
           [0..<length (link_items previous)])"
    by (rule zipped_collect_supported)
       (use assms in \<open>simp_all add: ZippedEnumerator_def zipped_reset_def sec_inv_def rest_or_def primary_rest_def\<close>)
  then show ?thesis
    by (simp add: zipped_traverse_def zipped_spec_def ZippedEnumerator_def zipped_reset_def comp_def)
qed


text \<open>\<open>zip([1, 2, 3], ['a', 'b'])\<close>, and the same with an enumerable of the one element 7 added.\<close>

theorem zipped_tuples_witness:
  "zipped_traverse (link_of_array [Num 1, Num 2, Num 3]) [Arr 0 [Str ''a'', Str ''b'']]
     = Inr [Some [Num 1, Str ''a''], Some [Num 2, Str ''b''], Some [Num 3, Undefined]]
   \<and> zipped_traverse (link_of_array [Num 1, Num 2, Num 3])
       [Arr 0 [Str ''a'', Str ''b''], Enum 1 [Num 7]]
     = Inr [Some [Num 1, Str ''a'', Num 7], Some [Num 2, Str ''b'', Undefined],
            Some [Num 3, Undefined, Undefined]]"
  using zipped_tuples [of "[Arr 0 [Str ''a'', Str ''b'']]" "link_of_array [Num 1, Num 2, Num 3]"]
        zipped_tuples [of "[Arr 0 [Str ''a'', Str ''b''], Enum 1 [Num 7]]"
                          "link_of_array [Num 1, Num 2, Num 3]"]
  by (simp add: zip_supported_def zipped_spec_def link_of_array_def positional_def
      secondary_elements_def nth_or_undefined_def)

lemma zipped_items_loop_unsupported:
  "\<forall>sec\<in>set good. zip_supported sec \<Longrightarrow> \<not> instanceof_Array bad \<Longrightarrow>
   \<not> (truthy bad \<and> truthy (get_IEnumerable bad)) \<Longrightarrow>
   zipped_items_loop index i (good @ bad # rest) ies cur
     = Inl (TypeError (unsupported_zip_argument (i + length good)))"
proof (induction good arbitrary: i ies cur)
  case Nil
  then show ?case by auto
next
  case (Cons item good)
  have ih: "zipped_items_loop index (Suc i) (good @ bad # rest) ies' cur'
     = Inl (TypeError (unsupported_zip_argument (Suc i + length good)))" for ies' cur'
    using Cons by simp
  show ?case
  proof (cases "instanceof_Array item")
    case True
    then show ?thesis using ih by simp
  next
    case False
    then obtain ps where ps: "enumerable_pairs item = Some ps"
      using Cons.prems(1) by (auto simp: zip_supported_def)
    note mk = enumerable_pairs_marker[OF ps]
    show ?thesis using False mk ih
      by (auto simp: item_getEnumerator_def ps split: option.splits prod.splits)
  qed
qed

text \<open>
  Claim C2, as amended. The constructor raises nothing. When the items up to a
  position are arrays or enumerables and the item at that position is neither,
  the first advance of a new zipped cursor raises the \<open>TypeError\<close> that names
  the position if the primary has an element; over an empty primary the advance
  returns false and the traversal ends without an error.
\<close>

theorem zipped_unsupported_argument:
  assumes "\<forall>sec\<in>set good. zip_supported sec"
    and "\<not> instanceof_Array bad"
    and "\<not> (truthy bad \<and> truthy (get_IEnumerable bad))"
  shows "zipped_moveNext (ZippedEnumerator previous (good @ bad # rest)) =
           (if link_items previous = []
            then Inr (False, (ZippedEnumerator previous (good @ bad # rest))
                               \<lparr>z_enumerator := Some (new_cursor [])\<rparr>)
            else Inl (TypeError (unsupported_zip_argument (length good))))
         \<and> zipped_traverse previous (good @ bad # rest) =
           (if link_items previous = [] then Inr []
            else Inl (TypeError (unsupported_zip_argument (length good))))"
proof -
  let ?z = "ZippedEnumerator previous (good @ bad # rest)"
  have loop: "zipped_items_loop index 0 (good @ bad # rest) ies cur
     = Inl (TypeError (unsupported_zip_argument (length good)))" for index ies cur
    using zipped_items_loop_unsupported[OF assms, of index 0 rest ies cur] by simp
  have mv: "zipped_moveNext ?z =
           (if link_items previous = []
            then Inr (False, ?z\<lparr>z_enumerator := Some (new_cursor [])\<rparr>)
            else Inl (TypeError (unsupported_zip_argument (length good))))"
    by (cases "link_items previous")
       (simp_all add: zipped_moveNext_def ZippedEnumerator_def zipped_reset_def new_cursor_def
          cursor_moveNext_def Let_def loop)
  have "zipped_traverse previous (good @ bad # rest) =
           (if link_items previous = [] then Inr []
            else Inl (TypeError (unsupported_zip_argument (length good))))"
    unfolding zipped_traverse_def by (subst zipped_collect.simps) (simp add: mv)
  with mv show ?thesis by simp
qed

text \<open>A plain object at the position 2, over a primary of one element and over an empty primary.\<close>

theorem zipped_unsupported_argument_witness:
  "zipped_moveNext (ZippedEnumerator (link_of_array [Num 1])
       [Arr 0 [Str ''a''], Enum 1 [Num 7], Obj 2 [(''x'', Num 1)], Num 5])
     = Inl (TypeError ''Collection at argument 2 should implement Types/collection#IEnumerable'')
   \<and> zipped_traverse (link_of_array [])
       [Arr 0 [Str ''a''], Enum 1 [Num 7], Obj 2 [(''x'', Num 1)], Num 5] = Inr []"
  using zipped_unsupported_argument
    [of "[Arr 0 [Str ''a''], Enum 1 [Num 7]]" "Obj 2 [(''x'', Num 1)]" "link_of_array [Num 1]" "[Num 5]"]
    zipped_unsupported_argument
    [of "[Arr 0 [Str ''a''], Enum 1 [Num 7]]" "Obj 2 [(''x'', Num 1)]" "link_of_array []" "[Num 5]"]
  by (simp add: zip_supported_def link_of_array_def positional_def IEnumerable_marker_def
      unsupported_zip_argument_def show_int_def digits.simps)

text \<open>
  Claim C2 as stated fails: with the number 5 as the only secondary, the zipped
  cursor is constructed and, over an empty primary, traversed to its end without
  any error; over a primary of one element the error comes from \<open>moveNext\<close>.
\<close>

theorem zipped_construction_counterexample:
  "zipped_traverse (link_of_array []) [Num 5] = Inr []
   \<and> zipped_moveNext (ZippedEnumerator (link_of_array [Num 1]) [Num 5])
       = Inl (TypeError ''Collection at argument 0 should implement Types/collection#IEnumerable'')"
  by (simp add: zipped_traverse_def zipped_collect.simps zipped_moveNext_def ZippedEnumerator_def
      zipped_reset_def link_of_array_def positional_def new_cursor_def cursor_moveNext_def
      cursor_getCurrent_def Let_def unsupported_zip_argument_def show_int_def digits.simps)

section \<open>The factory and the Objectwise cursor\<close>

text \<open>
  The message of the \<open>TypeError\<close> of \<open>factory\<close>: the template prints the source
  between double quotes.
\<close>

definition unsupported_source_type :: "jsval \<Rightarrow> string" where
  "unsupported_source_type source =
     ''Unsupported source type '' @ [CHR 0x22] @ ToString source @ [CHR 0x22] @
     '': only Array or Object are supported.''"

text \<open>
  \<open>factory(source)\<close>. The constructors of the adapter classes are not among the
  sources; a new link is the value \<open>Link\<close> of its class over the source, at the
  address \<open>fresh\<close> the new object gets.
\<close>

definition factory :: "nat \<Rightarrow> jsval \<Rightarrow> error + jsval" where
  "factory fresh source =
     (if instanceof_Abstract source then Inr source
      else if truthy source \<and> truthy (get_IEnumerable source) then Inr (Link fresh Enumerable source)
      else if instanceof_Array source then Inr (Link fresh Arraywise source)
      else if instanceof_Object source then Inr (Link fresh Objectwise source)
      else Inl (TypeError (unsupported_source_type source)))"

text \<open>
  Claim C4, as amended. By the kind of the source: a chain link is returned as
  it is (so a second call of \<open>factory\<close> on a result returns that result); a
  collection with the enumerable marker, or another object that carries it, is
  wrapped in \<open>Enumerable\<close>, also when it is an array; any other array in
  \<open>Arraywise\<close>, although it is an object as well; every other object, plain or
  not, in \<open>Objectwise\<close>; and only a value that
  is not an object is refused, with a \<open>TypeError\<close> whose message prints the
  value.
\<close>

theorem factory_classifies:
  "factory fresh source =
     (case source of
        Link a c s \<Rightarrow> Inr source
      | Enum a xs \<Rightarrow> Inr (Link fresh Enumerable source)
      | EnumArr a xs \<Rightarrow> Inr (Link fresh Enumerable source)
      | Arr a xs \<Rightarrow> Inr (Link fresh Arraywise source)
      | Obj a fs \<Rightarrow>
          if truthy (get_IEnumerable source) then Inr (Link fresh Enumerable source)
          else Inr (Link fresh Objectwise source)
      | Inst a fs \<Rightarrow>
          if truthy (get_IEnumerable source) then Inr (Link fresh Enumerable source)
          else Inr (Link fresh Objectwise source)
      | _ \<Rightarrow> Inl (TypeError (unsupported_source_type source)))
   \<and> isl (factory fresh source) = (\<not> instanceof_Object source)
   \<and> (factory fresh source = Inr link \<longrightarrow> factory fresh' link = Inr link)"
  by (cases source) (auto simp: factory_def instanceof_Object_def split: if_splits)

text \<open>
  A plain object with the marker, the link made of it, an array that implements
  \<open>IEnumerable\<close>, an array that does not, and the number 5.
\<close>

theorem factory_classifies_witness:
  "factory 9 (Obj 3 [(''[Types/_collection/IEnumerable]'', Bool True)])
     = Inr (Link 9 Enumerable (Obj 3 [(''[Types/_collection/IEnumerable]'', Bool True)]))
   \<and> factory 10 (Link 9 Enumerable (Obj 3 [(''[Types/_collection/IEnumerable]'', Bool True)]))
     = Inr (Link 9 Enumerable (Obj 3 [(''[Types/_collection/IEnumerable]'', Bool True)]))
   \<and> factory 9 (EnumArr 4 [Num 1]) = Inr (Link 9 Enumerable (EnumArr 4 [Num 1]))
   \<and> factory 9 (Arr 4 [Num 1]) = Inr (Link 9 Arraywise (Arr 4 [Num 1]))
   \<and> factory 9 (Num 5)
     = Inl (TypeError (''Unsupported source type '' @ [CHR 0x22] @ ''5'' @ [CHR 0x22] @
                       '': only Array or Object are supported.''))"
  using factory_classifies
    [of 9 "Obj 3 [(''[Types/_collection/IEnumerable]'', Bool True)]"
        "Link 9 Enumerable (Obj 3 [(''[Types/_collection/IEnumerable]'', Bool True)])" 10]
    factory_classifies [of 9 "EnumArr 4 [Num 1]"]
    factory_classifies [of 9 "Arr 4 [Num 1]"]
    factory_classifies [of 9 "Num 5"]
  by (simp add: IEnumerable_marker_def unsupported_source_type_def show_int_def digits.simps)

text \<open>A plain key-value object, in the words of the spec.\<close>

fun is_plain_object :: "jsval \<Rightarrow> bool" where
  "is_plain_object (Obj a fs) = True"
| "is_plain_object v = False"

text \<open>
  Claim C4 as stated fails: an object of another class, with one property
  \<open>year\<close>, is no chain link, carries no marker, is no array and no plain
  key-value object; the claim has it refused, and \<open>factory\<close> wraps it in
  \<open>Objectwise\<close>.
\<close>

theorem factory_not_plain_counterexample:
  "\<not> instanceof_Abstract (Inst 3 [(''year'', Num 2019)])
   \<and> \<not> truthy (get_IEnumerable (Inst 3 [(''year'', Num 2019)]))
   \<and> \<not> instanceof_Array (Inst 3 [(''year'', Num 2019)])
   \<and> \<not> is_plain_object (Inst 3 [(''year'', Num 2019)])
   \<and> factory 9 (Inst 3 [(''year'', Num 2019)])
       = Inr (Link 9 Objectwise (Inst 3 [(''year'', Num 2019)]))"
  by (simp add: factory_def instanceof_Object_def IEnumerable_marker_def)

text \<open>
  \<open>Object.keys\<close>: the own property names of an object, the index strings of
  an array. The own properties of collections and links are not modelled.
\<close>

fun Object_keys :: "jsval \<Rightarrow> string list" where
  "Object_keys (Obj a fs) = map fst fs"
| "Object_keys (Inst a fs) = map fst fs"
| "Object_keys (Arr a xs) = map (\<lambda>i. show_int (int i)) [0..<length xs]"
| "Object_keys (EnumArr a xs) = map (\<lambda>i. show_int (int i)) [0..<length xs]"
| "Object_keys v = []"

text \<open>The fields of the cursor over the own properties of an object.\<close>

record objectwise =
  o_items :: jsval
  o_keys :: "string list"
  o_index :: int
  o_filter :: "(jsval \<Rightarrow> jsval \<Rightarrow> bool) option"

text \<open>
  The constructor of the cursor: \<open>undefined\<close> is replaced by a new empty
  object (at the address \<open>fresh\<close>), then anything that is not an instance of
  \<open>Object\<close> is refused.
\<close>

definition Objectwise_new :: "nat \<Rightarrow> jsval \<Rightarrow> error + objectwise" where
  "Objectwise_new fresh items =
     (let checkedItems = (if strict_eq items Undefined then Obj fresh [] else items)
      in if \<not> instanceof_Object checkedItems
         then Inl (Error ''Argument items should be an instance of Object'')
         else Inr \<lparr>o_items = checkedItems, o_keys = Object_keys checkedItems,
                   o_index = - 1, o_filter = None\<rparr>)"

text \<open>
  Claim C9, as amended. For every value that is not an object, the constructor
  raises its error, except for \<open>undefined\<close>, which it replaces by an empty object
  and accepts.
\<close>

theorem Objectwise_new_primitive:
  assumes "\<not> instanceof_Object items"
  shows "Objectwise_new fresh items =
           (if items = Undefined
            then Inr \<lparr>o_items = Obj fresh [], o_keys = [], o_index = - 1, o_filter = None\<rparr>
            else Inl (Error ''Argument items should be an instance of Object''))"
  using assms
  by (cases items) (simp_all add: Objectwise_new_def instanceof_Object_def strict_eq_def)

text \<open>\<open>null\<close> and a string are refused.\<close>

theorem Objectwise_new_primitive_witness:
  "Objectwise_new 0 Null = Inl (Error ''Argument items should be an instance of Object'')
   \<and> Objectwise_new 0 (Str ''abc'') = Inl (Error ''Argument items should be an instance of Object'')"
  using Objectwise_new_primitive [of Null 0] Objectwise_new_primitive [of "Str ''abc''" 0]
  by (simp add: instanceof_Object_def)

text \<open>
  Claim C9 as stated fails for \<open>undefined\<close>: it is not an object, and the
  constructor returns a cursor over no keys.
\<close>

theorem Objectwise_new_undefined_counterexample:
  "\<not> instanceof_Object Undefined
   \<and> Objectwise_new 0 Undefined
       = Inr \<lparr>o_items = Obj 0 [], o_keys = [], o_index = - 1, o_filter = None\<rparr>"
  by (simp add: Objectwise_new_def instanceof_Object_def strict_eq_def)

section \<open>SortedEnumerator\<close>

text \<open>
  Modelled from the spec: the class \<open>SortWrapper\<close> and the method \<open>_getItems\<close> of
  \<open>IndexedEnumerator\<close> are not among the sources. A wrapper pairs an element with
  its index before the sort; the items of an indexed cursor are the (index,
  element) pairs pulled from the previous link.
\<close>

type_synonym sort_wrapper = "jsval \<times> jsval"

definition SortWrapper :: "jsval \<Rightarrow> jsval \<Rightarrow> sort_wrapper" where
  "SortWrapper item index = (item, index)"

definition SortWrapper_valueOf :: "sort_wrapper \<Rightarrow> jsval" where
  "SortWrapper_valueOf w = fst w"

definition SortWrapper_indexOf :: "sort_wrapper \<Rightarrow> jsval" where
  "SortWrapper_indexOf w = snd w"

definition IndexedEnumerator_getItems :: "abstract_link \<Rightarrow> (jsval \<times> jsval) list" where
  "IndexedEnumerator_getItems previous = link_items previous"

text \<open>
  A compare function receives two wrappers. \<open>defaultCompare\<close> is written over
  the operators \<open>===\<close> and \<open>>\<close> of the host on its arguments.
\<close>

type_synonym CompareFunction = "sort_wrapper \<Rightarrow> sort_wrapper \<Rightarrow> int"

definition defaultCompare :: "('a \<Rightarrow> 'a \<Rightarrow> bool) \<Rightarrow> ('a \<Rightarrow> 'a \<Rightarrow> bool) \<Rightarrow> 'a \<Rightarrow> 'a \<Rightarrow> int" where
  "defaultCompare eq gt a b = (if eq a b then 0 else (if gt a b then 1 else - 1))"

text \<open>The fields of the class; \<open>s_items\<close> is \<open>None\<close> until the items are computed.\<close>

record sorted_enumerator =
  s_previous :: abstract_link
  compareFunction :: CompareFunction
  s_items :: "(jsval \<times> jsval) list option"

definition SortedEnumerator ::
  "(sort_wrapper \<Rightarrow> sort_wrapper \<Rightarrow> bool) \<Rightarrow> (sort_wrapper \<Rightarrow> sort_wrapper \<Rightarrow> bool)
     \<Rightarrow> abstract_link \<Rightarrow> CompareFunction option \<Rightarrow> sorted_enumerator" where
  "SortedEnumerator eq gt previous compare =
     \<lparr>s_previous = previous,
      compareFunction = (case compare of Some f \<Rightarrow> f | None \<Rightarrow> defaultCompare eq gt),
      s_items = None\<rparr>"

text \<open>
  \<open>_getItems()\<close>: computed once, then kept. The array method \<open>sort\<close> of the host
  is the parameter \<open>array_sort\<close>; \<open>enumerate 0\<close> gives the second \<open>map\<close> the
  position of each wrapper.
\<close>

definition sorted_getItems ::
  "(CompareFunction \<Rightarrow> sort_wrapper list \<Rightarrow> sort_wrapper list) \<Rightarrow> sorted_enumerator
     \<Rightarrow> (jsval \<times> jsval) list \<times> sorted_enumerator" where
  "sorted_getItems array_sort e =
     (case s_items e of
        Some items \<Rightarrow> (items, e)
      | None \<Rightarrow>
          (let shouldSave = shouldSaveIndices (s_previous e);
               items =
                 map (\<lambda>(index, item).
                        (if shouldSave then SortWrapper_indexOf item else Num (of_nat index),
                         SortWrapper_valueOf item))
                   (enumerate 0
                     (array_sort (compareFunction e)
                       (map (\<lambda>(index, item). SortWrapper item index)
                          (IndexedEnumerator_getItems (s_previous e)))))
           in (items, e\<lparr>s_items := Some items\<rparr>)))"

text \<open>For the proofs: the wrappers as the host's sort returns them.\<close>

definition sorted_wrappers ::
  "(CompareFunction \<Rightarrow> sort_wrapper list \<Rightarrow> sort_wrapper list) \<Rightarrow> sorted_enumerator
     \<Rightarrow> sort_wrapper list" where
  "sorted_wrappers array_sort e =
     array_sort (compareFunction e) (map (\<lambda>(index, item). (item, index)) (link_items (s_previous e)))"

lemma map_enumerate_result:
  "map (\<lambda>(index, item). (if b then g item else Num (of_nat index), h item)) (enumerate n xs)
     = zip (if b then map g xs else map (\<lambda>i. Num (of_nat i)) [n..<n + length xs]) (map h xs)"
proof (induction xs arbitrary: n)
  case Nil
  then show ?case by simp
next
  case (Cons x xs)
  have "[n..<n + length (x # xs)] = n # [Suc n..<Suc n + length xs]"
    by (simp add: upt_conv_Cons del: upt_Suc)
  then show ?case using Cons[of "Suc n"] by simp
qed

lemma sorted_getItems_zip:
  "s_items e = None \<Longrightarrow>
   fst (sorted_getItems array_sort e) =
     zip (if shouldSaveIndices (s_previous e) then map snd (sorted_wrappers array_sort e)
          else map (\<lambda>i. Num (of_nat i)) [0..<length (sorted_wrappers array_sort e)])
         (map fst (sorted_wrappers array_sort e))"
proof -
  assume none: "s_items e = None"
  have w: "map (\<lambda>(index, item). SortWrapper item index) (IndexedEnumerator_getItems (s_previous e))
           = map (\<lambda>(index, item). (item, index)) (link_items (s_previous e))"
    by (simp add: SortWrapper_def IndexedEnumerator_getItems_def)
  have "fst (sorted_getItems array_sort e) =
     map (\<lambda>(index, item).
            (if shouldSaveIndices (s_previous e) then SortWrapper_indexOf item else Num (of_nat index),
             SortWrapper_valueOf item))
       (enumerate 0 (sorted_wrappers array_sort e))"
    using none by (simp add: sorted_getItems_def Let_def w sorted_wrappers_def)
  also have "\<dots> = zip (if shouldSaveIndices (s_previous e)
                        then map SortWrapper_indexOf (sorted_wrappers array_sort e)
                        else map (\<lambda>i. Num (of_nat i)) [0..<0 + length (sorted_wrappers array_sort e)])
                     (map SortWrapper_valueOf (sorted_wrappers array_sort e))"
    by (rule map_enumerate_result)
  also have "map SortWrapper_indexOf (sorted_wrappers array_sort e) = map snd (sorted_wrappers array_sort e)"
    by (simp add: SortWrapper_indexOf_def)
  also have "map SortWrapper_valueOf (sorted_wrappers array_sort e) = map fst (sorted_wrappers array_sort e)"
    by (simp add: SortWrapper_valueOf_def)
  finally show ?thesis by simp
qed

lemma swap_pairs_mset:
  "mset (zip (map snd ws) (map fst ws)) = image_mset (\<lambda>(item, index). (index, item)) (mset ws)"
  by (induction ws) auto

text \<open>
  Claim C6. For every previous link and compare function, given that the
  host's sort returns a permutation of its argument: the elements of the items
  are the elements of the sorted wrappers, in that order; if the previous link
  has \<open>shouldSaveIndices\<close>, every element comes with the index its wrapper
  carries, its own from before the sort (the items are the pairs of the
  previous link, permuted), otherwise the indices are 0, ..., n-1 in the final
  order.
\<close>

theorem sorted_indices:
  assumes "s_items e = None"
    and "\<And>ws. mset (array_sort (compareFunction e) ws) = mset ws"
  shows "map snd (fst (sorted_getItems array_sort e)) = map fst (sorted_wrappers array_sort e)
         \<and> (if shouldSaveIndices (s_previous e)
            then map fst (fst (sorted_getItems array_sort e)) = map snd (sorted_wrappers array_sort e)
                 \<and> mset (fst (sorted_getItems array_sort e)) = mset (link_items (s_previous e))
            else map fst (fst (sorted_getItems array_sort e))
                   = map (\<lambda>i. Num (of_nat i)) [0..<length (link_items (s_previous e))])"
proof -
  let ?ws = "sorted_wrappers array_sort e"
  have m: "mset ?ws = mset (map (\<lambda>(index, item). (item, index)) (link_items (s_previous e)))"
    by (simp add: sorted_wrappers_def assms(2))
  then have len: "length ?ws = length (link_items (s_previous e))"
    by (metis length_map size_mset)
  have "mset (zip (map snd ?ws) (map fst ?ws)) = mset (link_items (s_previous e))"
    unfolding swap_pairs_mset m
    by (simp add: image_mset.compositionality comp_def case_prod_unfold)
  then show ?thesis
    by (simp add: sorted_getItems_zip[OF assms(1)] len)
qed

text \<open>
  A sort for the examples: the insertion sort that moves each element from the
  right end of the sorted part to the left, past the elements greater than it.
  The list argument of \<open>insert_from_right\<close> is the sorted part, reversed.
\<close>

fun insert_from_right :: "('a \<Rightarrow> 'a \<Rightarrow> int) \<Rightarrow> 'a \<Rightarrow> 'a list \<Rightarrow> 'a list" where
  "insert_from_right cmp x [] = [x]"
| "insert_from_right cmp x (y # rs) =
     (if cmp y x > 0 then y # insert_from_right cmp x rs else x # y # rs)"

definition insertion_sort :: "('a \<Rightarrow> 'a \<Rightarrow> int) \<Rightarrow> 'a list \<Rightarrow> 'a list" where
  "insertion_sort cmp ws = rev (foldl (\<lambda>rs x. insert_from_right cmp x rs) [] ws)"

lemma mset_insert_from_right: "mset (insert_from_right cmp x rs) = add_mset x (mset rs)"
  by (induction rs) auto

lemma mset_insertion_sort: "mset (insertion_sort cmp ws) = mset ws"
proof -
  have "mset (foldl (\<lambda>rs x. insert_from_right cmp x rs) acc ws) = mset ws + mset acc" for acc
    by (induction ws arbitrary: acc) (auto simp: mset_insert_from_right)
  then show ?thesis by (simp add: insertion_sort_def)
qed

text \<open>The compare function of the examples: \<open>(a, b) => a - b\<close> on numbers.\<close>

fun compare_numbers :: CompareFunction where
  "compare_numbers (Num x, i) (Num y, j) = sint x - sint y"
| "compare_numbers a b = 0"

text \<open>A keyed link sorted by value, with and without \<open>shouldSaveIndices\<close>.\<close>

theorem sorted_indices_witness:
  "fst (sorted_getItems insertion_sort
         (SortedEnumerator (=) (\<lambda>a b. False)
            \<lparr>link_items = [(Str ''b'', Num 2), (Str ''c'', Num 3), (Str ''a'', Num 1)],
             shouldSaveIndices = True\<rparr> (Some compare_numbers)))
     = [(Str ''a'', Num 1), (Str ''b'', Num 2), (Str ''c'', Num 3)]
   \<and> fst (sorted_getItems insertion_sort
         (SortedEnumerator (=) (\<lambda>a b. False)
            \<lparr>link_items = [(Str ''b'', Num 2), (Str ''c'', Num 3), (Str ''a'', Num 1)],
             shouldSaveIndices = False\<rparr> (Some compare_numbers)))
     = [(Num 0, Num 1), (Num 1, Num 2), (Num 2, Num 3)]"
  using sorted_indices
    [of "SortedEnumerator (=) (\<lambda>a b. False)
            \<lparr>link_items = [(Str ''b'', Num 2), (Str ''c'', Num 3), (Str ''a'', Num 1)],
             shouldSaveIndices = True\<rparr> (Some compare_numbers)" insertion_sort,
     OF _ mset_insertion_sort]
  by (simp add: SortedEnumerator_def sorted_getItems_def IndexedEnumerator_getItems_def
      SortWrapper_def SortWrapper_valueOf_def SortWrapper_indexOf_def insertion_sort_def Let_def)

text \<open>
  Modelled from the spec: the operators \<open>===\<close> and \<open>>\<close> of the host on two
  wrappers (the class \<open>SortWrapper\<close> is not among the sources). A wrapper is an
  object made by \<open>new\<close> for one pair of the previous link, so two wrappers are
  \<open>===\<close> only if they were made for the same pair: the equality of wrappers,
  when the indices of the previous link are distinct. \<open>>\<close> compares the values
  the wrappers hold; it is modelled for two numbers, and no wrapper is greater
  than another wrapper of the same value.
\<close>

definition wrapper_strict_eq :: "sort_wrapper \<Rightarrow> sort_wrapper \<Rightarrow> bool" where
  "wrapper_strict_eq a b = (a = b)"

fun wrapper_gt :: "sort_wrapper \<Rightarrow> sort_wrapper \<Rightarrow> bool" where
  "wrapper_gt (Num x, i) (Num y, j) = (sint x > sint y)"
| "wrapper_gt a b = False"

text \<open>
  A second sort: the insertion sort that puts each element before the first
  element of the sorted part that it compares less than, the place where the
  binary search of an insertion sort puts it. For every consistent comparison
  it returns the elements sorted, those that compare equal in the order they
  had (\<open>insertion_sort_left_stable\<close>).
\<close>

fun insert_from_left :: "('a \<Rightarrow> 'a \<Rightarrow> int) \<Rightarrow> 'a \<Rightarrow> 'a list \<Rightarrow> 'a list" where
  "insert_from_left cmp x [] = [x]"
| "insert_from_left cmp x (y # ys) =
     (if cmp x y < 0 then x # y # ys else y # insert_from_left cmp x ys)"

definition insertion_sort_left :: "('a \<Rightarrow> 'a \<Rightarrow> int) \<Rightarrow> 'a list \<Rightarrow> 'a list" where
  "insertion_sort_left cmp ws = foldl (\<lambda>sorted x. insert_from_left cmp x sorted) [] ws"

text \<open>
  A consistent comparison, on which the language standard defines the order a
  sort returns: \<open>a\<close> is before \<open>b\<close> exactly when \<open>b\<close> is after \<open>a\<close>, and "not after"
  is transitive.
\<close>

definition consistent_compare :: "('a \<Rightarrow> 'a \<Rightarrow> int) \<Rightarrow> bool" where
  "consistent_compare cmp =
     ((\<forall>x y. (cmp x y < 0) = (cmp y x > 0)) \<and>
      (\<forall>x y z. cmp x y \<le> 0 \<and> cmp y z \<le> 0 \<longrightarrow> cmp x z \<le> 0))"

lemma mset_insert_from_left: "mset (insert_from_left cmp x ys) = add_mset x (mset ys)"
  by (induction ys) auto

lemma mset_insertion_sort_left: "mset (insertion_sort_left cmp ws) = mset ws"
proof -
  have "mset (foldl (\<lambda>sorted x. insert_from_left cmp x sorted) acc ws) = mset ws + mset acc" for acc
    by (induction ws arbitrary: acc) (auto simp: mset_insert_from_left)
  then show ?thesis by (simp add: insertion_sort_left_def)
qed

lemma consistent_less_trans:
  assumes "consistent_compare cmp" "cmp x y < 0" "cmp y z \<le> 0"
  shows "cmp x z < 0"
proof (rule ccontr)
  assume "\<not> cmp x z < 0"
  then have "cmp z x \<le> 0"
    using assms(1) unfolding consistent_compare_def by (metis not_le)
  with assms(3) have "cmp y x \<le> 0"
    using assms(1) unfolding consistent_compare_def by blast
  moreover have "cmp y x > 0"
    using assms(1,2) unfolding consistent_compare_def by blast
  ultimately show False by simp
qed

lemma consistent_refl: "consistent_compare cmp \<Longrightarrow> cmp x x = 0"
  unfolding consistent_compare_def by (metis less_le not_le)

lemma set_insert_from_left: "set (insert_from_left cmp x ys) = insert x (set ys)"
  by (induction ys) auto

lemma sorted_insert_from_left:
  assumes "consistent_compare cmp"
  shows "sorted_wrt (\<lambda>a b. cmp a b \<le> 0) ys \<Longrightarrow>
         sorted_wrt (\<lambda>a b. cmp a b \<le> 0) (insert_from_left cmp x ys)"
proof (induction ys)
  case Nil
  then show ?case by simp
next
  case (Cons y ys)
  show ?case
  proof (cases "cmp x y < 0")
    case True
    have "cmp x z \<le> 0" if "z \<in> set ys" for z
      using consistent_less_trans[OF assms True, of z] Cons.prems that by force
    then show ?thesis using True Cons.prems by auto
  next
    case False
    then have "cmp y x \<le> 0"
      using assms unfolding consistent_compare_def by (metis not_le)
    then show ?thesis using False Cons by (auto simp: set_insert_from_left)
  qed
qed

lemma filter_insert_from_left:
  assumes "consistent_compare cmp" and "\<forall>x y. P x \<and> P y \<longrightarrow> cmp x y = 0"
  shows "sorted_wrt (\<lambda>a b. cmp a b \<le> 0) ys \<Longrightarrow>
         filter P (insert_from_left cmp x ys) = (if P x then filter P ys @ [x] else filter P ys)"
proof (induction ys)
  case Nil
  then show ?case by simp
next
  case (Cons y ys)
  show ?case
  proof (cases "cmp x y < 0")
    case True
    have "\<not> P z" if "P x" "z \<in> set (y # ys)" for z
    proof
      assume "P z"
      have "cmp y z \<le> 0"
        using that(2) Cons.prems consistent_refl[OF assms(1), of y] by auto
      then have "cmp x z < 0" by (rule consistent_less_trans[OF assms(1) True])
      then show False using assms(2) that(1) \<open>P z\<close> by force
    qed
    then have "P x \<Longrightarrow> filter P (y # ys) = []"
      by (meson filter_False)
    with True show ?thesis by auto
  next
    case False
    then show ?thesis using Cons by auto
  qed
qed

lemma insertion_sort_left_stable:
  assumes "consistent_compare cmp" and "\<forall>x y. P x \<and> P y \<longrightarrow> cmp x y = 0"
  shows "filter P (insertion_sort_left cmp ws) = filter P ws
         \<and> sorted_wrt (\<lambda>a b. cmp a b \<le> 0) (insertion_sort_left cmp ws)"
proof -
  have "sorted_wrt (\<lambda>a b. cmp a b \<le> 0) acc \<Longrightarrow>
        filter P (foldl (\<lambda>sorted x. insert_from_left cmp x sorted) acc ws) = filter P acc @ filter P ws
        \<and> sorted_wrt (\<lambda>a b. cmp a b \<le> 0) (foldl (\<lambda>sorted x. insert_from_left cmp x sorted) acc ws)" for acc
  proof (induction ws arbitrary: acc)
    case Nil
    then show ?case by simp
  next
    case (Cons w ws)
    have s: "sorted_wrt (\<lambda>a b. cmp a b \<le> 0) (insert_from_left cmp w acc)"
      by (rule sorted_insert_from_left[OF assms(1) Cons.prems])
    show ?case
      using Cons.IH[OF s] filter_insert_from_left[OF assms Cons.prems, of w] by simp
  qed
  from this[of "[]"] show ?thesis by (simp add: insertion_sort_left_def)
qed

lemma defaultCompare_equal_values:
  "\<not> eq a b \<Longrightarrow> \<not> gt a b \<Longrightarrow> defaultCompare eq gt a b = - 1"
  by (simp add: defaultCompare_def)

lemma defaultCompare_not_consistent:
  "\<not> consistent_compare (defaultCompare wrapper_strict_eq wrapper_gt)"
proof
  assume "consistent_compare (defaultCompare wrapper_strict_eq wrapper_gt)"
  then have "(defaultCompare wrapper_strict_eq wrapper_gt (Num 1, Str ''a'') (Num 1, Str ''b'') < 0)
           = (defaultCompare wrapper_strict_eq wrapper_gt (Num 1, Str ''b'') (Num 1, Str ''a'') > 0)"
    unfolding consistent_compare_def by blast
  then show False by (simp add: defaultCompare_def wrapper_strict_eq_def)
qed


section \<open>FlattenedEnumerator\<close>

text \<open>
  Modelled from the spec: the class \<open>FlattenedMover\<close> is not among the sources.
  The mover keeps a stack of the sequences still to visit, one for each nesting
  level, the innermost first. An element that is an array or an enumerable is
  not yielded: its elements are pushed as a new level. An exhausted level is
  popped. \<open>flatten_children\<close> gives the elements of such an element, \<open>None\<close> for
  an atomic one.
\<close>

fun flatten_children :: "jsval \<Rightarrow> jsval list option" where
  "flatten_children (Arr a xs) = Some xs"
| "flatten_children (EnumArr a xs) = Some xs"
| "flatten_children (Enum a xs) = Some xs"
| "flatten_children (Link a Arraywise (Arr b xs)) = Some xs"
| "flatten_children (Link a Objectwise (Obj b fs)) = Some (map snd fs)"
| "flatten_children (Link a Objectwise (Inst b fs)) = Some (map snd fs)"
| "flatten_children (Link a Enumerable s) = flatten_children s"
| "flatten_children v = None"

lemma size_list_snd: "size_list (\<lambda>p. size (snd p)) fs \<le> size_list (size_prod (\<lambda>x. 0) size) fs"
  by (induction fs) auto

lemma flatten_children_size:
  "flatten_children v = Some els \<Longrightarrow> size_list size els < size v"
proof (induction v arbitrary: els rule: flatten_children.induct)
  case (5 a b fs)
  then show ?case using size_list_snd[of fs] by (auto simp: comp_def less_Suc_eq_le)
next
  case (6 a b fs)
  then show ?case using size_list_snd[of fs] by (auto simp: comp_def less_Suc_eq_le)
next
  case (7 a s)
  then show ?case by fastforce
qed auto

text \<open>
  The next atomic element of a stack and the stack after it, or \<open>None\<close> when no
  level has one left.
\<close>

function mover_next :: "jsval list list \<Rightarrow> (jsval \<times> jsval list list) option" where
  "mover_next [] = None"
| "mover_next ([] # st) = mover_next st"
| "mover_next ((x # xs) # st) =
     (case flatten_children x of
        Some els \<Rightarrow> mover_next (els # xs # st)
      | None \<Rightarrow> Some (x, xs # st))"
  by pat_completeness auto
termination
  by (relation "measure (size_list (size_list size))") (auto dest: flatten_children_size)

declare mover_next.simps [simp del]

text \<open>The state of a mover, and its three operations.\<close>

record flattened_mover =
  fm_stack :: "jsval list list"
  fm_current :: jsval

definition FlattenedMover :: "cursor \<Rightarrow> flattened_mover" where
  "FlattenedMover parent = \<lparr>fm_stack = [map snd (c_rest parent)], fm_current = Undefined\<rparr>"

definition mover_moveNext :: "flattened_mover \<Rightarrow> bool \<times> flattened_mover" where
  "mover_moveNext m =
     (case mover_next (fm_stack m) of
        None \<Rightarrow> (False, m\<lparr>fm_stack := []\<rparr>)
      | Some (x, st) \<Rightarrow> (True, \<lparr>fm_stack = st, fm_current = x\<rparr>))"

definition mover_getCurrent :: "flattened_mover \<Rightarrow> jsval" where
  "mover_getCurrent m = fm_current m"

text \<open>
  The fields of the class \<open>FlattenedEnumerator\<close>, over any type \<open>'m\<close> of movers:
  the operations of the mover are parameters of \<open>moveNext\<close> and \<open>getCurrent\<close>.
  \<open>f_mover\<close> is \<open>None\<close> while the field is \<open>null\<close>.
\<close>

record 'm flattened_enumerator =
  f_previous :: abstract_link
  f_mover :: "'m option"
  f_index :: int

definition flattened_reset :: "'m flattened_enumerator \<Rightarrow> 'm flattened_enumerator" where
  "flattened_reset e = e\<lparr>f_mover := None, f_index := - 1\<rparr>"

text \<open>The constructor stores the previous link and calls \<open>reset()\<close>.\<close>

definition FlattenedEnumerator :: "abstract_link \<Rightarrow> 'm flattened_enumerator" where
  "FlattenedEnumerator previous =
     flattened_reset \<lparr>f_previous = previous, f_mover = None, f_index = 0\<rparr>"

definition flattened_getCurrent :: "('m \<Rightarrow> jsval) \<Rightarrow> 'm flattened_enumerator \<Rightarrow> jsval" where
  "flattened_getCurrent getCurrent e =
     (case f_mover e of Some m \<Rightarrow> getCurrent m | None \<Rightarrow> Undefined)"

definition flattened_getCurrentIndex :: "'m flattened_enumerator \<Rightarrow> int" where
  "flattened_getCurrentIndex e = f_index e"

text \<open>
  \<open>moveNext()\<close>: the mover is created at the first call, over a new cursor of
  the previous link; the index grows by one when the mover has an element.
\<close>

definition flattened_moveNext ::
  "(cursor \<Rightarrow> 'm) \<Rightarrow> ('m \<Rightarrow> bool \<times> 'm) \<Rightarrow> 'm flattened_enumerator
     \<Rightarrow> bool \<times> 'm flattened_enumerator" where
  "flattened_moveNext new_mover moveNext e =
     (let m = (case f_mover e of
                 Some m \<Rightarrow> m
               | None \<Rightarrow> new_mover (new_cursor (link_items (f_previous e))));
          (hasNext, m') = moveNext m;
          e1 = e\<lparr>f_mover := Some m'\<rparr>
      in if hasNext then (hasNext, e1\<lparr>f_index := f_index e1 + 1\<rparr>) else (hasNext, e1))"

text \<open>
  \<open>n\<close> calls of \<open>moveNext\<close> in a row: what each returned, and the cursor after
  the last. \<open>flattened_yields\<close> collects the index and the element shown after
  each call that returned true.
\<close>

fun flattened_calls ::
  "(cursor \<Rightarrow> 'm) \<Rightarrow> ('m \<Rightarrow> bool \<times> 'm) \<Rightarrow> nat \<Rightarrow> 'm flattened_enumerator
     \<Rightarrow> bool list \<times> 'm flattened_enumerator" where
  "flattened_calls new_mover moveNext 0 e = ([], e)"
| "flattened_calls new_mover moveNext (Suc n) e =
     (case flattened_moveNext new_mover moveNext e of
        (b, e') \<Rightarrow>
          (case flattened_calls new_mover moveNext n e' of (bs, e'') \<Rightarrow> (b # bs, e'')))"

fun flattened_yields ::
  "(cursor \<Rightarrow> 'm) \<Rightarrow> ('m \<Rightarrow> bool \<times> 'm) \<Rightarrow> ('m \<Rightarrow> jsval) \<Rightarrow> nat \<Rightarrow> 'm flattened_enumerator
     \<Rightarrow> (int \<times> jsval) list" where
  "flattened_yields new_mover moveNext getCurrent 0 e = []"
| "flattened_yields new_mover moveNext getCurrent (Suc n) e =
     (case flattened_moveNext new_mover moveNext e of
        (b, e') \<Rightarrow>
          (if b then [(flattened_getCurrentIndex e', flattened_getCurrent getCurrent e')] else [])
          @ flattened_yields new_mover moveNext getCurrent n e')"

lemma flattened_moveNext_index:
  "flattened_moveNext new_mover moveNext e = (b, e') \<Longrightarrow>
   f_index e' = f_index e + (if b then 1 else 0) \<and> f_previous e' = f_previous e"
  by (auto simp: flattened_moveNext_def Let_def split: prod.splits if_splits)

lemma flattened_calls_index:
  "flattened_calls new_mover moveNext n e = (bs, e') \<Longrightarrow>
   f_index e' = f_index e + int (length (filter id bs)) \<and> length bs = n"
proof (induction n arbitrary: e bs e')
  case 0
  then show ?case by simp
next
  case (Suc n)
  obtain b e1 where mv: "flattened_moveNext new_mover moveNext e = (b, e1)"
    by (cases "flattened_moveNext new_mover moveNext e")
  obtain bs1 e2 where rest: "flattened_calls new_mover moveNext n e1 = (bs1, e2)"
    by (cases "flattened_calls new_mover moveNext n e1")
  have "bs = b # bs1" "e' = e2" using Suc.prems mv rest by simp_all
  then show ?case
    using Suc.IH[OF rest] flattened_moveNext_index[OF mv] by simp
qed

text \<open>
  Claim C8. Whatever the mover does, after any number of calls of \<open>moveNext\<close>
  on a new flattened cursor the index is the number of calls that returned
  true, minus one: 0 after the first element, n-1 after the n-th, whatever the
  depth the element comes from and whatever its index there. \<open>reset()\<close> gives
  the state of a new cursor of the same link, index -1 and no mover. With the
  mover of the spec, \<open>flatten([1, [2, [3, 4]], 5])\<close> yields 1, 2, 3, 4, 5 under
  the indices 0, 1, 2, 3, 4, and the sixth call returns false.
\<close>

theorem flattened_index_counter:
  "flattened_getCurrentIndex (snd (flattened_calls new_mover moveNext n (FlattenedEnumerator previous)))
     = int (length (filter id (fst (flattened_calls new_mover moveNext n (FlattenedEnumerator previous))))) - 1
   \<and> flattened_reset e = FlattenedEnumerator (f_previous e)
   \<and> flattened_yields FlattenedMover mover_moveNext mover_getCurrent 6
        (FlattenedEnumerator (link_of_array
           [Num 1, Arr 0 [Num 2, Arr 1 [Num 3, Num 4]], Num 5]))
       = [(0, Num 1), (1, Num 2), (2, Num 3), (3, Num 4), (4, Num 5)]
   \<and> fst (flattened_calls FlattenedMover mover_moveNext 6
        (FlattenedEnumerator (link_of_array
           [Num 1, Arr 0 [Num 2, Arr 1 [Num 3, Num 4]], Num 5])))
       = [True, True, True, True, True, False]"
proof -
  obtain bs e' where c: "flattened_calls new_mover moveNext n (FlattenedEnumerator previous) = (bs, e')"
    by (cases "flattened_calls new_mover moveNext n (FlattenedEnumerator previous)")
  have "f_index (FlattenedEnumerator previous :: 'a flattened_enumerator) = - 1"
    by (simp add: FlattenedEnumerator_def flattened_reset_def)
  with flattened_calls_index[OF c]
  have counter: "flattened_getCurrentIndex (snd (flattened_calls new_mover moveNext n (FlattenedEnumerator previous)))
     = int (length (filter id (fst (flattened_calls new_mover moveNext n (FlattenedEnumerator previous))))) - 1"
    by (simp add: c flattened_getCurrentIndex_def)
  have reset: "flattened_reset e = FlattenedEnumerator (f_previous e)"
    by (simp add: FlattenedEnumerator_def flattened_reset_def)
  have six: "(6::nat) = Suc (Suc (Suc (Suc (Suc (Suc 0)))))" by simp
  have yields: "flattened_yields FlattenedMover mover_moveNext mover_getCurrent 6
        (FlattenedEnumerator (link_of_array
           [Num 1, Arr 0 [Num 2, Arr 1 [Num 3, Num 4]], Num 5]))
       = [(0, Num 1), (1, Num 2), (2, Num 3), (3, Num 4), (4, Num 5)]"
    unfolding six
    by (simp add: FlattenedEnumerator_def flattened_reset_def flattened_moveNext_def Let_def
        link_of_array_def positional_def new_cursor_def FlattenedMover_def mover_moveNext_def
        mover_next.simps flattened_getCurrentIndex_def flattened_getCurrent_def mover_getCurrent_def)
  have calls: "fst (flattened_calls FlattenedMover mover_moveNext 6
        (FlattenedEnumerator (link_of_array
           [Num 1, Arr 0 [Num 2, Arr 1 [Num 3, Num 4]], Num 5])))
       = [True, True, True, True, True, False]"
    unfolding six
    by (simp add: FlattenedEnumerator_def flattened_reset_def flattened_moveNext_def Let_def
        link_of_array_def positional_def new_cursor_def FlattenedMover_def mover_moveNext_def
        mover_next.simps)
  from counter reset yields calls show ?thesis by blast
qed

text \<open>After three elements of the example the index is 2.\<close>

theorem flattened_index_counter_witness:
  "flattened_getCurrentIndex (snd (flattened_calls FlattenedMover mover_moveNext 3
        (FlattenedEnumerator (link_of_array
           [Num 1, Arr 0 [Num 2, Arr 1 [Num 3, Num 4]], Num 5])))) = 2
   \<and> fst (flattened_calls FlattenedMover mover_moveNext 3
        (FlattenedEnumerator (link_of_array
           [Num 1, Arr 0 [Num 2, Arr 1 [Num 3, Num 4]], Num 5]))) = [True, True, True]"
proof -
  have three: "(3::nat) = Suc (Suc (Suc 0))" by simp
  have calls: "fst (flattened_calls FlattenedMover mover_moveNext 3
        (FlattenedEnumerator (link_of_array
           [Num 1, Arr 0 [Num 2, Arr 1 [Num 3, Num 4]], Num 5]))) = [True, True, True]"
    unfolding three
    by (simp add: FlattenedEnumerator_def flattened_reset_def flattened_moveNext_def Let_def
        link_of_array_def positional_def new_cursor_def FlattenedMover_def mover_moveNext_def
        mover_next.simps)
  have "flattened_getCurrentIndex (snd (flattened_calls FlattenedMover mover_moveNext 3
        (FlattenedEnumerator (link_of_array
           [Num 1, Arr 0 [Num 2, Arr 1 [Num 3, Num 4]], Num 5]))))
     = int (length (filter id (fst (flattened_calls FlattenedMover mover_moveNext 3
        (FlattenedEnumerator (link_of_array
           [Num 1, Arr 0 [Num 2, Arr 1 [Num 3, Num 4]], Num 5])))))) - 1"
    using flattened_index_counter
      [of FlattenedMover mover_moveNext 3
        "link_of_array [Num 1, Arr 0 [Num 2, Arr 1 [Num 3, Num 4]], Num 5]"
        "FlattenedEnumerator (link_of_array []) :: flattened_mover flattened_enumerator"]
    by blast
  then show ?thesis unfolding calls by (simp add: calls)
qed

end
